theory Spec2Isabelle
  imports Complex_Main "HOL-Library.Word" "HOL-Library.Multiset"
begin

section \<open>Data model (internal/models/product.go)\<close>

text \<open>
  The service is built for \<^verbatim>\<open>GOARCH=amd64\<close> (Makefile), so Go's \<^verbatim>\<open>int\<close> is a signed
  64-bit integer whose arithmetic wraps around: \<open>goint\<close>, read with \<open>sint\<close> and compared
  with the signed orders \<open>word_sle\<close> and \<open>word_sless\<close>.
  A \<^verbatim>\<open>uuid.UUID\<close> is 16 bytes. A \<^verbatim>\<open>time.Time\<close> is modelled by its position on the
  time line, in nanoseconds. A string is modelled by the list of its characters.

  The repository stores and returns prices and never computes with them. There a
  \<^verbatim>\<open>float64\<close> is modelled by the decimal number written for it: the shortest decimal
  that reads back as the same \<^verbatim>\<open>float64\<close>, which is the number JSON carries and the
  number the database driver sends. Different values have different decimals, in the same
  order.
\<close>

type_synonym goint = "64 word"
type_synonym uuid = "128 word"
type_synonym timestamp = int

record Product =
  ID :: uuid
  Name :: string
  Description :: string
  Price :: real
  CreatedAt :: timestamp
  UpdatedAt :: timestamp

text \<open>The fields of \<^verbatim>\<open>ProductRequest\<close> carry the prefix \<open>Req\<close>: field names are global.\<close>

record ProductRequest =
  ReqName :: string
  ReqDescription :: string
  ReqPrice :: real

text \<open>
  \<^verbatim>\<open>ToProduct\<close> reads the clock once and asks \<^verbatim>\<open>uuid.New()\<close> for an identifier; both
  readings are inputs of the model.
\<close>

definition ToProduct :: "ProductRequest \<Rightarrow> uuid \<Rightarrow> timestamp \<Rightarrow> Product" where
  "ToProduct pr new_id now =
     \<lparr>ID = new_id, Name = ReqName pr, Description = ReqDescription pr,
      Price = ReqPrice pr, CreatedAt = now, UpdatedAt = now\<rparr>"

text \<open>
  The failures of the repository layer: an absent product (\<^verbatim>\<open>errors.New("product not found")\<close>,
  \<^verbatim>\<open>"no product found with the given ID"\<close>, \<^verbatim>\<open>sql.ErrNoRows\<close>), a failure reported by
  the database driver, and a run-time panic of the Go program.
\<close>

datatype error = NotFound | StorageError | Panic

section \<open>In-memory backend (internal/repository/product_memory_repository.go)\<close>

text \<open>
  The repository is its slice \<^verbatim>\<open>products\<close>; every method runs under the lock, so a
  method is a function of the slice. A method that returns only \<^verbatim>\<open>error\<close> returns the
  error (\<open>None\<close> for \<^verbatim>\<open>nil\<close>) and the slice it leaves behind.
\<close>

type_synonym memory_repo = "Product list"

definition NewProductMemoryRepository :: memory_repo where
  "NewProductMemoryRepository = []"

definition Create :: "memory_repo \<Rightarrow> Product \<Rightarrow> error option \<times> memory_repo" where
  "Create r product = (None, r @ [product])"

definition CreateBulk :: "memory_repo \<Rightarrow> Product list \<Rightarrow> error option \<times> memory_repo" where
  "CreateBulk r products = (None, r @ products)"

text \<open>\<^verbatim>\<open>for _, product := range r.products\<close>: the first element with the identifier.\<close>

fun GetByID :: "memory_repo \<Rightarrow> uuid \<Rightarrow> error + Product" where
  "GetByID [] i = Inl NotFound"
| "GetByID (product # rest) i = (if ID product = i then Inr product else GetByID rest i)"

text \<open>
  The scan of \<^verbatim>\<open>Update\<close> and \<^verbatim>\<open>Delete\<close>: \<open>scan r i k\<close> is the index of the first element
  with identifier \<open>i\<close>, counted from \<open>k\<close>, if there is one.
\<close>

fun scan :: "memory_repo \<Rightarrow> uuid \<Rightarrow> nat \<Rightarrow> nat option" where
  "scan [] i k = None"
| "scan (product # rest) i k = (if ID product = i then Some k else scan rest i (Suc k))"

definition Update ::
  "memory_repo \<Rightarrow> uuid \<Rightarrow> ProductRequest \<Rightarrow> timestamp \<Rightarrow> error option \<times> memory_repo" where
  "Update r i req now =
     (case scan r i 0 of
        Some k \<Rightarrow>
          (None, r[k := (r ! k)\<lparr>Name := ReqName req, Description := ReqDescription req,
                                Price := ReqPrice req, UpdatedAt := now\<rparr>])
      | None \<Rightarrow> (Some NotFound, r))"

text \<open>
  \<^verbatim>\<open>r.products[i] = r.products[len(r.products)-1]\<close>, then the slice loses its last
  element. The scan found an element, so the slice is not empty.
\<close>

definition Delete :: "memory_repo \<Rightarrow> uuid \<Rightarrow> error option \<times> memory_repo" where
  "Delete r i =
     (case scan r i 0 of
        Some k \<Rightarrow> (None, take (length r - 1) (r[k := r ! (length r - 1)]))
      | None \<Rightarrow> (Some NotFound, r))"

definition DeleteAll :: "memory_repo \<Rightarrow> error option \<times> memory_repo" where
  "DeleteAll r = (None, [])"

definition GetAll :: "memory_repo \<Rightarrow> error + Product list" where
  "GetAll r = Inr r"

definition len :: "'a list \<Rightarrow> goint" where
  "len xs = of_nat (length xs)"

definition Count :: "memory_repo \<Rightarrow> error + goint" where
  "Count r = Inr (len r)"

subsection \<open>Pagination\<close>

text \<open>
  \<^verbatim>\<open>List\<close> computes its two indices in \<^verbatim>\<open>int\<close> arithmetic and checks them against
  \<^verbatim>\<open>len(r.products)\<close>. \<open>page_bounds n page pageSize\<close> is \<open>None\<close> when the first check
  returns the empty result, and otherwise the pair of indices after the second check.
\<close>

definition page_bounds :: "goint \<Rightarrow> goint \<Rightarrow> goint \<Rightarrow> (goint \<times> goint) option" where
  "page_bounds n page pageSize =
     (let startIndex = (page - 1) * pageSize;
          endIndex = startIndex + pageSize
      in if word_sle n startIndex then None
         else Some (startIndex, if word_sless n endIndex then n else endIndex))"

text \<open>
  The run-time checks of Go: \<^verbatim>\<open>make([]T, n)\<close> panics when \<open>n\<close> is negative, and
  \<^verbatim>\<open>s[lo:hi]\<close> panics unless \<open>0 \<le> lo \<le> hi \<le> cap(s)\<close>. The model has no spare capacity
  (\<open>cap(s) = len(s)\<close>); in \<^verbatim>\<open>List\<close> the upper index has been clamped to the length when
  the slice expression is reached. An allocation that the machine cannot serve is not
  modelled: a length above \<open>len(s)\<close> makes the slice expression that follows panic anyway.
\<close>

definition zero_Product :: Product where
  "zero_Product =
     \<lparr>ID = 0, Name = [], Description = [], Price = 0, CreatedAt = 0, UpdatedAt = 0\<rparr>"

definition make_slice :: "goint \<Rightarrow> error + Product list" where
  "make_slice n = (if word_sless n 0 then Inl Panic else Inr (replicate (nat (sint n)) zero_Product))"

definition slice_expr :: "'a list \<Rightarrow> goint \<Rightarrow> goint \<Rightarrow> error + 'a list" where
  "slice_expr s lo hi =
     (if word_sle 0 lo \<and> word_sle lo hi \<and> word_sle hi (len s)
      then Inr (take (nat (sint hi) - nat (sint lo)) (drop (nat (sint lo)) s))
      else Inl Panic)"

definition copy :: "'a list \<Rightarrow> 'a list \<Rightarrow> 'a list" where
  "copy dst src =
     (let k = min (length dst) (length src) in take k src @ drop k dst)"

definition List :: "memory_repo \<Rightarrow> goint \<Rightarrow> goint \<Rightarrow> error + Product list" where
  "List r page pageSize =
     (case page_bounds (len r) page pageSize of
        None \<Rightarrow> Inr []
      | Some (startIndex, endIndex) \<Rightarrow>
          (case make_slice (endIndex - startIndex) of
             Inl e \<Rightarrow> Inl e
           | Inr result \<Rightarrow>
               (case slice_expr r startIndex endIndex of
                  Inl e \<Rightarrow> Inl e
                | Inr src \<Rightarrow> Inr (copy result src))))"

text \<open>
  A client that reads a whole dataset page by page: \<open>list 1 pageSize\<close>,
  \<open>list 2 pageSize\<close>, and so on until the first empty page, concatenating what it gets.
  Nothing in the loop bounds the number of pages, so its result is optional: \<open>None\<close> is
  a loop that does not end.
\<close>

partial_function (option) collect_pages ::
  "(goint \<Rightarrow> goint \<Rightarrow> error + Product list) \<Rightarrow> goint \<Rightarrow> goint \<Rightarrow> (error + Product list) option"
where
  "collect_pages list pageSize page =
     (case list page pageSize of
        Inl e \<Rightarrow> Some (Inl e)
      | Inr xs \<Rightarrow>
          if xs = [] then Some (Inr [])
          else Option.bind (collect_pages list pageSize (page + 1))
                 (\<lambda>rest. Some (case rest of Inl e \<Rightarrow> Inl e | Inr ys \<Rightarrow> Inr (xs @ ys))))"

section \<open>Persistent backend (internal/repository/product_repository.go)\<close>

text \<open>
  The relational engine is not part of the repository; what the methods rely on is
  modelled as follows. The table \<^verbatim>\<open>products\<close> is the list of its rows. Every statement
  can fail for a reason outside the program (connection, cancelled context): that is
  the flag \<open>fault\<close>, an input. A transaction works on a copy of the table; \<^verbatim>\<open>Commit\<close>
  installs the copy, unless it reports a failure, and \<^verbatim>\<open>Rollback\<close> drops it. The
  methods of \<^verbatim>\<open>ProductRepository\<close> carry the prefix \<open>DB_\<close>.
\<close>

type_synonym table = "Product list"

subsection \<open>The columns of the table (pkg/database/postgres.go)\<close>

text \<open>
  \<^verbatim>\<open>name VARCHAR(255) NOT NULL\<close>: a text of more than 255 characters is refused, unless
  the characters beyond the first 255 are all spaces, which are then cut off.
\<close>

definition varchar_255 :: "string \<Rightarrow> string option" where
  "varchar_255 s =
     (if length s \<le> 255 then Some s
      else if list_all (\<lambda>c. c = CHR '' '') (drop 255 s) then Some (take 255 s)
      else None)"

text \<open>
  \<^verbatim>\<open>price DECIMAL(10,2) NOT NULL\<close>: the decimal number sent for the price is rounded to
  two places, a half away from zero, and refused when the result needs more than eight
  digits before the point. Read back, the two-place decimal is again the decimal of a
  \<^verbatim>\<open>float64\<close>.
\<close>

definition round_half_away :: "real \<Rightarrow> int" where
  "round_half_away x = (if 0 \<le> x then \<lfloor>x + 1 / 2\<rfloor> else - \<lfloor>- x + 1 / 2\<rfloor>)"

definition decimal_10_2 :: "real \<Rightarrow> real option" where
  "decimal_10_2 x =
     (let q = of_int (round_half_away (x * 100)) / 100
      in if \<bar>q\<bar> < 10 ^ 8 then Some q else None)"

text \<open>
  \<^verbatim>\<open>created_at\<close>, \<^verbatim>\<open>updated_at TIMESTAMP WITH TIME ZONE\<close>: a time is kept to the
  microsecond. The driver sends the nanoseconds and the engine rounds them; the model
  rounds a half upwards.
\<close>

definition timestamptz :: "timestamp \<Rightarrow> timestamp" where
  "timestamptz ts = (ts + 500) div 1000 * 1000"

text \<open>
  The row that an \<^verbatim>\<open>INSERT\<close> of a product stores, \<open>None\<close> when a column refuses its
  value. \<^verbatim>\<open>id UUID\<close> and \<^verbatim>\<open>description TEXT\<close> keep what they are given.
\<close>

definition to_row :: "Product \<Rightarrow> Product option" where
  "to_row product =
     (case varchar_255 (Name product) of
        None \<Rightarrow> None
      | Some n \<Rightarrow>
          (case decimal_10_2 (Price product) of
             None \<Rightarrow> None
           | Some q \<Rightarrow>
               Some \<lparr>ID = ID product, Name = n, Description = Description product, Price = q,
                     CreatedAt = timestamptz (CreatedAt product),
                     UpdatedAt = timestamptz (UpdatedAt product)\<rparr>))"

text \<open>\<^verbatim>\<open>id UUID PRIMARY KEY\<close>: an \<^verbatim>\<open>INSERT\<close> of an identifier that is present is refused.\<close>

definition insert_row :: "bool \<Rightarrow> table \<Rightarrow> Product \<Rightarrow> error option \<times> table" where
  "insert_row fault t product =
     (if fault then (Some StorageError, t)
      else case to_row product of
             None \<Rightarrow> (Some StorageError, t)
           | Some row \<Rightarrow>
               if ID row \<in> ID ` set t then (Some StorageError, t) else (None, t @ [row]))"

subsection \<open>The methods\<close>

definition BeginTxx :: "bool \<Rightarrow> table \<Rightarrow> error + table" where
  "BeginTxx fault t = (if fault then Inl StorageError else Inr t)"

definition Commit :: "bool \<Rightarrow> table \<Rightarrow> table \<Rightarrow> error option \<times> table" where
  "Commit fault t work = (if fault then (Some StorageError, t) else (None, work))"

definition Rollback :: "table \<Rightarrow> table \<Rightarrow> table" where
  "Rollback t work = t"

record tx_env =
  begin_fault :: bool
  exec_fault :: "nat \<Rightarrow> bool"
  commit_fault :: bool

definition DB_Create :: "bool \<Rightarrow> table \<Rightarrow> Product \<Rightarrow> error option \<times> table" where
  "DB_Create fault t product = insert_row fault t product"

text \<open>
  The loop of \<^verbatim>\<open>CreateBulk\<close>: \<open>k\<close> counts the statements, \<open>t\<close> is the table as it was
  when the transaction began and \<open>work\<close> the transaction's copy. The first failing
  statement rolls back and returns its error.
\<close>

fun bulk_insert ::
  "(nat \<Rightarrow> bool) \<Rightarrow> nat \<Rightarrow> table \<Rightarrow> table \<Rightarrow> Product list \<Rightarrow> error option \<times> table" where
  "bulk_insert ef k t work [] = (None, work)"
| "bulk_insert ef k t work (product # rest) =
     (case insert_row (ef k) work product of
        (Some e, _) \<Rightarrow> (Some e, Rollback t work)
      | (None, work') \<Rightarrow> bulk_insert ef (Suc k) t work' rest)"

definition DB_CreateBulk :: "tx_env \<Rightarrow> table \<Rightarrow> Product list \<Rightarrow> error option \<times> table" where
  "DB_CreateBulk env t products =
     (case BeginTxx (begin_fault env) t of
        Inl e \<Rightarrow> (Some e, t)
      | Inr tx \<Rightarrow>
          (case bulk_insert (exec_fault env) 0 t tx products of
             (Some e, t') \<Rightarrow> (Some e, t')
           | (None, work) \<Rightarrow> Commit (commit_fault env) t work))"

definition DB_GetByID :: "bool \<Rightarrow> table \<Rightarrow> uuid \<Rightarrow> error + Product" where
  "DB_GetByID fault t i =
     (if fault then Inl StorageError
      else case find (\<lambda>p. ID p = i) t of None \<Rightarrow> Inl NotFound | Some p \<Rightarrow> Inr p)"

text \<open>
  \<^verbatim>\<open>ORDER BY created_at DESC\<close>. SQL leaves the order of rows with equal \<^verbatim>\<open>created_at\<close> to
  the engine, which may settle it anew in every query. What the engine settles is an
  input of the query: a ranking \<open>tie\<close> of the rows, by which rows of equal \<^verbatim>\<open>created_at\<close>
  are ordered (rows of equal rank stay in table order).
\<close>

definition order_by_created_at_desc :: "(Product \<Rightarrow> nat) \<Rightarrow> table \<Rightarrow> Product list" where
  "order_by_created_at_desc tie t = sort_key (\<lambda>p. - CreatedAt p) (sort_key tie t)"

text \<open>
  \<^verbatim>\<open>LIMIT $1 OFFSET $2\<close> with \<open>$1 = pageSize\<close> and \<open>$2 = (page - 1) * pageSize\<close>, computed
  in Go; the engine refuses a negative limit or offset.
\<close>

definition DB_List ::
  "bool \<Rightarrow> (Product \<Rightarrow> nat) \<Rightarrow> table \<Rightarrow> goint \<Rightarrow> goint \<Rightarrow> error + Product list" where
  "DB_List fault tie t page pageSize =
     (let offset = (page - 1) * pageSize
      in if fault \<or> word_sless pageSize 0 \<or> word_sless offset 0 then Inl StorageError
         else Inr (take (nat (sint pageSize)) (drop (nat (sint offset))
                     (order_by_created_at_desc tie t))))"

definition DB_GetAll :: "bool \<Rightarrow> (Product \<Rightarrow> nat) \<Rightarrow> table \<Rightarrow> error + Product list" where
  "DB_GetAll fault tie t =
     (if fault then Inl StorageError else Inr (order_by_created_at_desc tie t))"

text \<open>
  \<^verbatim>\<open>Update\<close> returns the driver's error only; the number of rows is not looked at. The
  engine converts the parameters to the columns' types when it plans the statement, so
  a value that a column refuses fails the call whether or not a row has the identifier.
\<close>

definition DB_Update ::
  "bool \<Rightarrow> table \<Rightarrow> uuid \<Rightarrow> ProductRequest \<Rightarrow> timestamp \<Rightarrow> error option \<times> table" where
  "DB_Update fault t i req now =
     (if fault then (Some StorageError, t)
      else case (varchar_255 (ReqName req), decimal_10_2 (ReqPrice req)) of
             (Some n, Some q) \<Rightarrow>
               (None, map (\<lambda>p. if ID p = i
                                then p\<lparr>Name := n, Description := ReqDescription req,
                                       Price := q, UpdatedAt := timestamptz now\<rparr>
                                else p) t)
           | _ \<Rightarrow> (Some StorageError, t))"

definition DB_Delete :: "bool \<Rightarrow> table \<Rightarrow> uuid \<Rightarrow> error option \<times> table" where
  "DB_Delete fault t i =
     (if fault then (Some StorageError, t)
      else let t' = filter (\<lambda>p. ID p \<noteq> i) t;
               rowsAffected = length t - length t'
           in if rowsAffected = 0 then (Some NotFound, t') else (None, t'))"

definition DB_DeleteAll :: "bool \<Rightarrow> table \<Rightarrow> error option \<times> table" where
  "DB_DeleteAll fault t = (if fault then (Some StorageError, t) else (None, []))"

definition DB_Count :: "bool \<Rightarrow> table \<Rightarrow> error + goint" where
  "DB_Count fault t = (if fault then Inl StorageError else Inr (len t))"

section \<open>Sequences of calls\<close>

text \<open>
  One call of the repository contract. \<open>OpCreate\<close> is the handler's creation: the
  request is converted by \<^verbatim>\<open>ToProduct\<close> (with the identifier and the clock reading it
  draws) and the product is passed to \<^verbatim>\<open>Create\<close>. \<open>OpUpdate\<close> carries the clock reading
  of \<^verbatim>\<open>time.Now()\<close>.
\<close>

datatype op =
    OpCreate ProductRequest uuid timestamp
  | OpCreateBulk "Product list"
  | OpGetByID uuid
  | OpList goint goint
  | OpGetAll
  | OpUpdate uuid ProductRequest timestamp
  | OpDelete uuid
  | OpDeleteAll
  | OpCount

datatype reply = Done | OneProduct Product | Page "Product list" | AllProducts "Product list"
  | Number goint

fun status :: "error option \<Rightarrow> error + reply" where
  "status None = Inr Done"
| "status (Some e) = Inl e"

fun answer :: "('a \<Rightarrow> reply) \<Rightarrow> error + 'a \<Rightarrow> error + reply" where
  "answer f (Inl e) = Inl e"
| "answer f (Inr x) = Inr (f x)"

fun mem_step :: "memory_repo \<Rightarrow> op \<Rightarrow> (error + reply) \<times> memory_repo" where
  "mem_step r (OpCreate req i now) =
     (case Create r (ToProduct req i now) of (e, r') \<Rightarrow> (status e, r'))"
| "mem_step r (OpCreateBulk products) =
     (case CreateBulk r products of (e, r') \<Rightarrow> (status e, r'))"
| "mem_step r (OpGetByID i) = (answer OneProduct (GetByID r i), r)"
| "mem_step r (OpList page pageSize) = (answer Page (List r page pageSize), r)"
| "mem_step r OpGetAll = (answer AllProducts (GetAll r), r)"
| "mem_step r (OpUpdate i req now) = (case Update r i req now of (e, r') \<Rightarrow> (status e, r'))"
| "mem_step r (OpDelete i) = (case Delete r i of (e, r') \<Rightarrow> (status e, r'))"
| "mem_step r OpDeleteAll = (case DeleteAll r of (e, r') \<Rightarrow> (status e, r'))"
| "mem_step r OpCount = (answer Number (Count r), r)"

text \<open>
  The same calls on the persistent backend, when no statement fails from outside. \<open>tie\<close>
  is what the engine settles about equal \<^verbatim>\<open>created_at\<close> in this call.
\<close>

definition no_fault :: tx_env where
  "no_fault = \<lparr>begin_fault = False, exec_fault = (\<lambda>k. False), commit_fault = False\<rparr>"

fun db_step :: "(Product \<Rightarrow> nat) \<Rightarrow> table \<Rightarrow> op \<Rightarrow> (error + reply) \<times> table" where
  "db_step tie t (OpCreate req i now) =
     (case DB_Create False t (ToProduct req i now) of (e, t') \<Rightarrow> (status e, t'))"
| "db_step tie t (OpCreateBulk products) =
     (case DB_CreateBulk no_fault t products of (e, t') \<Rightarrow> (status e, t'))"
| "db_step tie t (OpGetByID i) = (answer OneProduct (DB_GetByID False t i), t)"
| "db_step tie t (OpList page pageSize) =
     (answer Page (DB_List False tie t page pageSize), t)"
| "db_step tie t OpGetAll = (answer AllProducts (DB_GetAll False tie t), t)"
| "db_step tie t (OpUpdate i req now) =
     (case DB_Update False t i req now of (e, t') \<Rightarrow> (status e, t'))"
| "db_step tie t (OpDelete i) = (case DB_Delete False t i of (e, t') \<Rightarrow> (status e, t'))"
| "db_step tie t OpDeleteAll = (case DB_DeleteAll False t of (e, t') \<Rightarrow> (status e, t'))"
| "db_step tie t OpCount = (answer Number (DB_Count False t), t)"

text \<open>The dataset after a sequence of calls, and the results the caller saw.\<close>

fun mem_run :: "memory_repo \<Rightarrow> op list \<Rightarrow> memory_repo" where
  "mem_run r [] = r"
| "mem_run r (c # cs) = mem_run (snd (mem_step r c)) cs"

fun mem_results :: "memory_repo \<Rightarrow> op list \<Rightarrow> (error + reply) list" where
  "mem_results r [] = []"
| "mem_results r (c # cs) = fst (mem_step r c) # mem_results (snd (mem_step r c)) cs"

text \<open>On the persistent backend \<open>ties k\<close> is what the engine settles in call \<open>k\<close>.\<close>

fun db_run :: "(nat \<Rightarrow> Product \<Rightarrow> nat) \<Rightarrow> table \<Rightarrow> op list \<Rightarrow> table" where
  "db_run ties t [] = t"
| "db_run ties t (c # cs) = db_run (\<lambda>k. ties (Suc k)) (snd (db_step (ties 0) t c)) cs"

fun db_results :: "(nat \<Rightarrow> Product \<Rightarrow> nat) \<Rightarrow> table \<Rightarrow> op list \<Rightarrow> (error + reply) list" where
  "db_results ties t [] = []"
| "db_results ties t (c # cs) =
     fst (db_step (ties 0) t c) # db_results (\<lambda>k. ties (Suc k)) (snd (db_step (ties 0) t c)) cs"

subsection \<open>The invariant of the data model\<close>

definition timestamps_ok :: "Product \<Rightarrow> bool" where
  "timestamps_ok p \<longleftrightarrow> CreatedAt p \<le> UpdatedAt p"

definition repo_inv :: "Product list \<Rightarrow> bool" where
  "repo_inv r \<longleftrightarrow> list_all timestamps_ok r \<and> distinct (map ID r)"

text \<open>
  What the in-memory backend takes for granted, call by call: an identifier from
  \<^verbatim>\<open>uuid.New()\<close> is not in use, a batch brings identifiers that are new and pairwise
  different and timestamps in order, and the clock of an update does not read earlier
  than the creation of the product it updates.
\<close>

fun admissible :: "memory_repo \<Rightarrow> op \<Rightarrow> bool" where
  "admissible r (OpCreate req i now) \<longleftrightarrow> i \<notin> ID ` set r"
| "admissible r (OpCreateBulk products) \<longleftrightarrow>
     distinct (map ID products) \<and> list_all (\<lambda>p. ID p \<notin> ID ` set r) products
     \<and> list_all timestamps_ok products"
| "admissible r (OpUpdate i req now) \<longleftrightarrow> list_all (\<lambda>p. ID p = i \<longrightarrow> CreatedAt p \<le> now) r"
| "admissible r c \<longleftrightarrow> True"

fun admissible_run :: "memory_repo \<Rightarrow> op list \<Rightarrow> bool" where
  "admissible_run r [] \<longleftrightarrow> True"
| "admissible_run r (c # cs) \<longleftrightarrow> admissible r c \<and> admissible_run (snd (mem_step r c)) cs"

subsection \<open>Comparing the two backends\<close>

text \<open>
  Products are compared up to their timestamps: \<open>content\<close> is the rest of a product.
  Two results agree when both are failures, or both are successes with the same data:
  the same product, the same number, the same products in any order for \<^verbatim>\<open>GetAll\<close>,
  and a page of the same length for \<^verbatim>\<open>List\<close>.
\<close>

definition content :: "Product \<Rightarrow> uuid \<times> string \<times> string \<times> real" where
  "content p = (ID p, Name p, Description p, Price p)"

fun agree :: "error + reply \<Rightarrow> error + reply \<Rightarrow> bool" where
  "agree (Inl e) (Inl e') \<longleftrightarrow> True"
| "agree (Inr Done) (Inr Done) \<longleftrightarrow> True"
| "agree (Inr (OneProduct p)) (Inr (OneProduct q)) \<longleftrightarrow> content p = content q"
| "agree (Inr (Number m)) (Inr (Number n)) \<longleftrightarrow> m = n"
| "agree (Inr (AllProducts xs)) (Inr (AllProducts ys)) \<longleftrightarrow>
     mset (map content xs) = mset (map content ys)"
| "agree (Inr (Page xs)) (Inr (Page ys)) \<longleftrightarrow> length xs = length ys"
| "agree a b \<longleftrightarrow> False"

text \<open>
  A name and a price that the columns store as they are: at most 255 characters, and a
  price of at most two decimal places and eight digits before the point.
\<close>

definition stored_unchanged :: "string \<Rightarrow> real \<Rightarrow> bool" where
  "stored_unchanged n q \<longleftrightarrow> varchar_255 n = Some n \<and> decimal_10_2 q = Some q"

text \<open>
  The calls on which the backends are compared: a creation brings an identifier that is
  not in use and a name and price stored as they are, an update names a product that is
  there and brings such a name and price, and a page request has a positive page number,
  a size that is not negative, and indices that fit \<^verbatim>\<open>int\<close>.
\<close>

fun comparable :: "memory_repo \<Rightarrow> op \<Rightarrow> bool" where
  "comparable r (OpCreate req i now) \<longleftrightarrow>
     i \<notin> ID ` set r \<and> stored_unchanged (ReqName req) (ReqPrice req)"
| "comparable r (OpCreateBulk products) \<longleftrightarrow>
     distinct (map ID products)
     \<and> list_all (\<lambda>p. ID p \<notin> ID ` set r \<and> stored_unchanged (Name p) (Price p)) products"
| "comparable r (OpUpdate i req now) \<longleftrightarrow>
     i \<in> ID ` set r \<and> stored_unchanged (ReqName req) (ReqPrice req)"
| "comparable r (OpList page pageSize) \<longleftrightarrow>
     length r < 2 ^ 62 \<and> 1 \<le> sint page \<and> 0 \<le> sint pageSize
     \<and> (sint page - 1) * sint pageSize < 2 ^ 63"
| "comparable r c \<longleftrightarrow> True"

fun comparable_run :: "memory_repo \<Rightarrow> op list \<Rightarrow> bool" where
  "comparable_run r [] \<longleftrightarrow> True"
| "comparable_run r (c # cs) \<longleftrightarrow> comparable r c \<and> comparable_run (snd (mem_step r c)) cs"

definition same_dataset :: "memory_repo \<Rightarrow> table \<Rightarrow> bool" where
  "same_dataset r t \<longleftrightarrow> mset (map content r) = mset (map content t) \<and> distinct (map ID r)"

section \<open>Random product generator (package utils)\<close>

definition adjectives :: "string list" where
  "adjectives =
     [''Awesome'', ''Cool'', ''Smart'', ''Innovative'', ''Premium'',
      ''Classic'', ''Elegant'', ''Advanced'', ''Ultimate'', ''Pro'']"

definition productTypes :: "string list" where
  "productTypes =
     [''Gadget'', ''Device'', ''Tool'', ''Accessory'', ''Electronics'',
      ''Appliance'', ''Instrument'', ''Machine'', ''Equipment'', ''System'']"

record RandomProduct =
  RpID :: uuid
  RpName :: string
  RpDescription :: string
  RpPrice :: real

subsection \<open>Arithmetic in \<^verbatim>\<open>float64\<close>\<close>

text \<open>
  The generator computes its price, so here a \<^verbatim>\<open>float64\<close> is modelled by the real number
  it is exactly, and every operation rounds its exact result to the nearest \<^verbatim>\<open>float64\<close>,
  a half to the even neighbour. The \<^verbatim>\<open>float64\<close> numbers near \<open>x\<close> are the multiples of
  \<open>2\<close> to the power \<open>ulp_exponent x\<close>: 53 binary digits, or the multiples of \<open>2\<close> to the power
  \<open>- 1074\<close> below the normal range. Results beyond the largest \<^verbatim>\<open>float64\<close> do not occur
  in this program. On \<^verbatim>\<open>amd64\<close> the compiler does not fuse a product with a sum: the price
  is rounded twice.
\<close>

definition round_half_even :: "real \<Rightarrow> int" where
  "round_half_even x =
     (let n = \<lfloor>x\<rfloor>; r = x - of_int n
      in if r < 1 / 2 then n else if 1 / 2 < r then n + 1 else if even n then n else n + 1)"

definition ulp_exponent :: "real \<Rightarrow> int" where
  "ulp_exponent x = max (\<lfloor>log 2 \<bar>x\<bar>\<rfloor> - 52) (- 1074)"

definition round_float64 :: "real \<Rightarrow> real" where
  "round_float64 x =
     (if x = 0 then 0
      else of_int (round_half_even (x / 2 powr of_int (ulp_exponent x)))
             * 2 powr of_int (ulp_exponent x))"

definition is_float64 :: "real \<Rightarrow> bool" where
  "is_float64 x \<longleftrightarrow> round_float64 x = x \<and> \<bar>x\<bar> < 2 ^ 1024"

subsection \<open>The generator\<close>

text \<open>
  What one call of \<^verbatim>\<open>GenerateRandomProduct\<close> draws: the two results of \<^verbatim>\<open>rand.Intn\<close>,
  the result of \<^verbatim>\<open>rand.Float64\<close> and the identifier of \<^verbatim>\<open>uuid.New()\<close>. The library
  promises \<open>0 \<le> rand.Intn(n) < n\<close> and a \<^verbatim>\<open>float64\<close> with \<open>0 \<le> rand.Float64() < 1\<close>:
  \<open>valid_draw\<close>. The generator built by \<^verbatim>\<open>rand.New\<close> in the first line of the function
  is dropped unused.
\<close>

record draw =
  rand_adj :: nat
  rand_type :: nat
  rand_float :: real
  rand_uuid :: uuid

definition valid_draw :: "draw \<Rightarrow> bool" where
  "valid_draw d \<longleftrightarrow>
     rand_adj d < length adjectives \<and> rand_type d < length productTypes
     \<and> is_float64 (rand_float d) \<and> 0 \<le> rand_float d \<and> rand_float d < 1"

text \<open>\<^verbatim>\<open>strings.ToLower\<close> on ASCII text, which is all the word lists hold.\<close>

definition lower_char :: "char \<Rightarrow> char" where
  "lower_char c =
     (if 65 \<le> (of_char c :: nat) \<and> (of_char c :: nat) \<le> 90
      then char_of ((of_char c :: nat) + 32) else c)"

definition ToLower :: "string \<Rightarrow> string" where
  "ToLower s = map lower_char s"

definition GenerateRandomProduct :: "draw \<Rightarrow> RandomProduct" where
  "GenerateRandomProduct d =
     (let adj = adjectives ! rand_adj d;
          prodType = productTypes ! rand_type d;
          name = adj @ '' '' @ prodType;
          description = ''A '' @ ToLower name @ '' designed for modern needs.'';
          price = round_float64 (10.0 + round_float64 (rand_float d * 990.0))
      in \<lparr>RpID = rand_uuid d, RpName = name, RpDescription = description, RpPrice = price\<rparr>)"

definition zero_RandomProduct :: RandomProduct where
  "zero_RandomProduct = \<lparr>RpID = 0, RpName = [], RpDescription = [], RpPrice = 0\<rparr>"

text \<open>
  The loop \<^verbatim>\<open>for i := 0; i < count; i++\<close> of \<^verbatim>\<open>GenerateRandomProducts\<close>: \<open>todo\<close> is
  \<open>count - i\<close>, and \<open>src i\<close> is what the call at index \<open>i\<close> draws. The parameter
  \<^verbatim>\<open>count\<close> is written \<open>cnt\<close>.
\<close>

fun fill_products ::
  "(nat \<Rightarrow> draw) \<Rightarrow> nat \<Rightarrow> nat \<Rightarrow> RandomProduct list \<Rightarrow> RandomProduct list" where
  "fill_products src i 0 products = products"
| "fill_products src i (Suc todo) products =
     fill_products src (Suc i) todo (products[i := GenerateRandomProduct (src i)])"

definition GenerateRandomProducts :: "(nat \<Rightarrow> draw) \<Rightarrow> goint \<Rightarrow> error + RandomProduct list" where
  "GenerateRandomProducts src cnt =
     (if word_sless cnt 0 then Inl Panic
      else let n = nat (sint cnt)
           in Inr (fill_products src 0 n (replicate n zero_RandomProduct)))"

section \<open>Sample data\<close>

text \<open>Products, requests and draws, used where a statement is run on concrete input.\<close>

definition sample_a :: Product where
  "sample_a = \<lparr>ID = 1, Name = ''Awesome Gadget'', Description = ''first'', Price = 10,
                CreatedAt = 100, UpdatedAt = 100\<rparr>"

definition sample_b :: Product where
  "sample_b = \<lparr>ID = 2, Name = ''Cool Device'', Description = ''second'', Price = 20,
                CreatedAt = 200, UpdatedAt = 250\<rparr>"

definition sample_c :: Product where
  "sample_c = \<lparr>ID = 3, Name = ''Smart Tool'', Description = ''third'', Price = 30,
                CreatedAt = 300, UpdatedAt = 300\<rparr>"

definition widget :: ProductRequest where
  "widget = \<lparr>ReqName = ''Widget'', ReqDescription = [], ReqPrice = 999 / 100\<rparr>"

definition widget_pro :: ProductRequest where
  "widget_pro = \<lparr>ReqName = ''Widget Pro'', ReqDescription = ''upgraded'', ReqPrice = 1999 / 100\<rparr>"

definition draw0 :: draw where
  "draw0 = \<lparr>rand_adj = 0, rand_type = 3, rand_float = 1 / 2, rand_uuid = 7\<rparr>"

definition src0 :: "nat \<Rightarrow> draw" where
  "src0 i = \<lparr>rand_adj = i, rand_type = i + 1, rand_float = 1 / 4, rand_uuid = of_nat i\<rparr>"

text \<open>
  Rows of the table, with times in whole microseconds; \<open>row_a\<close> and \<open>row_d\<close> have the same
  \<^verbatim>\<open>created_at\<close>. Two rankings that an engine may use among rows of equal
  \<^verbatim>\<open>created_at\<close>, and an engine that uses the second in the query for page 2 only.
\<close>

definition row_a :: Product where
  "row_a = \<lparr>ID = 1, Name = ''Awesome Gadget'', Description = ''first'', Price = 10,
             CreatedAt = 1000, UpdatedAt = 1000\<rparr>"

definition row_b :: Product where
  "row_b = \<lparr>ID = 2, Name = ''Cool Device'', Description = ''second'', Price = 20,
             CreatedAt = 2000, UpdatedAt = 2000\<rparr>"

definition row_c :: Product where
  "row_c = \<lparr>ID = 3, Name = ''Smart Tool'', Description = ''third'', Price = 30,
             CreatedAt = 3000, UpdatedAt = 3000\<rparr>"

definition row_d :: Product where
  "row_d = \<lparr>ID = 4, Name = ''Pro System'', Description = ''fourth'', Price = 40,
             CreatedAt = 1000, UpdatedAt = 1000\<rparr>"

definition rank_up :: "Product \<Rightarrow> nat" where
  "rank_up p = (if ID p = 1 then 0 else 1)"

definition rank_down :: "Product \<Rightarrow> nat" where
  "rank_down p = (if ID p = 1 then 1 else 0)"

definition ranks :: "goint \<Rightarrow> Product \<Rightarrow> nat" where
  "ranks page = (if page = 2 then rank_down else rank_up)"

text \<open>
  Requests that the table does not store as they are: a price of three decimal places,
  a price of ten digits, a name of 256 characters.
\<close>

definition fine :: ProductRequest where
  "fine = \<lparr>ReqName = ''Widget'', ReqDescription = [], ReqPrice = 9999 / 1000\<rparr>"

definition dear :: ProductRequest where
  "dear = \<lparr>ReqName = ''Widget'', ReqDescription = [], ReqPrice = 1000000000\<rparr>"

definition wordy :: ProductRequest where
  "wordy = \<lparr>ReqName = replicate 256 (CHR ''x''), ReqDescription = [], ReqPrice = 10\<rparr>"

lemmas row_defs = row_a_def row_b_def row_c_def row_d_def rank_up_def rank_down_def ranks_def

lemmas sample_defs = sample_a_def sample_b_def sample_c_def widget_def widget_pro_def

section \<open>Facts about the scan\<close>

lemma scan_None: "scan r i k = None \<longleftrightarrow> i \<notin> ID ` set r"
  by (induction r arbitrary: k) auto

lemma scan_Some:
  "scan r i k = Some m \<Longrightarrow>
     k \<le> m \<and> m - k < length r \<and> ID (r ! (m - k)) = i \<and> (\<forall>j < m - k. ID (r ! j) \<noteq> i)"
proof (induction r arbitrary: k)
  case Nil
  then show ?case by simp
next
  case (Cons p r)
  show ?case
  proof (cases "ID p = i")
    case True
    with Cons.prems show ?thesis by simp
  next
    case False
    with Cons.prems have s: "scan r i (Suc k) = Some m" by simp
    from Cons.IH [OF s] have h: "Suc k \<le> m" "m - Suc k < length r"
      "ID (r ! (m - Suc k)) = i" "\<forall>j < m - Suc k. ID (r ! j) \<noteq> i" by auto
    from h(1) have e: "m - k = Suc (m - Suc k)" by simp
    have "\<forall>j < m - k. ID ((p # r) ! j) \<noteq> i"
    proof (intro allI impI)
      fix j assume "j < m - k"
      then show "ID ((p # r) ! j) \<noteq> i"
        using False h(4) e by (cases j) auto
    qed
    with h e show ?thesis by simp
  qed
qed

lemma scan_0_Some:
  "scan r i 0 = Some m \<Longrightarrow> m < length r \<and> ID (r ! m) = i \<and> (\<forall>j < m. ID (r ! j) \<noteq> i)"
  using scan_Some [of r i 0 m] by simp

lemma scan_exists: "i \<in> ID ` set r \<Longrightarrow> \<exists>m. scan r i 0 = Some m"
  using scan_None [of r i 0] by (cases "scan r i 0") auto

lemma GetByID_NotFound: "GetByID r i = Inl NotFound \<longleftrightarrow> i \<notin> ID ` set r"
  by (induction r) auto

lemma GetByID_distinct:
  "distinct (map ID r) \<Longrightarrow> p \<in> set r \<Longrightarrow> GetByID r (ID p) = Inr p"
  by (induction r) (auto simp: image_iff)

lemma GetByID_append_fresh:
  "i \<notin> ID ` set r \<Longrightarrow> ID p = i \<Longrightarrow> GetByID (r @ [p]) i = Inr p"
  by (induction r) auto

lemma distinct_ID_index:
  assumes "distinct (map ID r)" "k < length r" "j < length r" "ID (r ! k) = ID (r ! j)"
  shows "k = j"
  using assms by (metis distinct_conv_nth length_map nth_map)

lemma mset_swap_remove:
  assumes "k < length r"
  shows "mset (butlast (r[k := last r])) = mset r - {#r ! k#}"
proof (cases "k = length r - 1")
  case True
  with assms have "r[k := last r] = r"
    by (metis last_conv_nth list.size(3) list_update_id not_less_zero)
  moreover from assms have "r \<noteq> []" by auto
  then have "mset r = mset (butlast r) + {#last r#}"
    by (metis append_butlast_last_id mset.simps(1,2) mset_append union_mset_add_mset_right add.right_neutral)
  moreover have "last r = r ! k" using True assms
    by (metis last_conv_nth list.size(3) not_less_zero)
  ultimately show ?thesis by simp
next
  case False
  with assms have kl: "k < length r - 1" by simp
  from assms have ne: "r \<noteq> []" by auto
  have "r[k := last r] = (butlast r)[k := last r] @ [last r]"
    using kl ne
    by (metis append_butlast_last_id length_butlast list_update_append1)
  then have "butlast (r[k := last r]) = (butlast r)[k := last r]" by simp
  moreover have "mset ((butlast r)[k := last r]) = mset (butlast r) - {#butlast r ! k#} + {#last r#}"
    using kl by (simp add: mset_update)
  moreover have "butlast r ! k = r ! k" using kl by (simp add: nth_butlast)
  moreover have "mset r = mset (butlast r) + {#last r#}"
    using ne by (metis append_butlast_last_id mset.simps(1,2) mset_append union_mset_add_mset_right add.right_neutral)
  moreover have "r ! k \<in># mset (butlast r)"
    using kl by (metis length_butlast nth_butlast nth_mem set_mset_mset)
  ultimately show ?thesis by simp
qed

lemma Delete_eq:
  "scan r i 0 = Some k \<Longrightarrow> Delete r i = (None, butlast (r[k := last r]))"
proof -
  assume s: "scan r i 0 = Some k"
  then have "k < length r" using scan_0_Some by blast
  then have ne: "r \<noteq> []" by auto
  have "take (length r - 1) (r[k := r ! (length r - 1)]) = butlast (r[k := last r])"
    using ne by (simp add: butlast_conv_take last_conv_nth)
  with s show ?thesis by (simp add: Delete_def)
qed

section \<open>Bulk creation is all or nothing\<close>

lemma bulk_insert_all_or_nothing:
  "(case bulk_insert ef k t work ps of
      (None, w) \<Rightarrow> (\<exists>rows. map to_row ps = map Some rows \<and> w = work @ rows)
    | (Some e, t') \<Rightarrow> t' = t)"
proof (induction ps arbitrary: k work)
  case Nil
  show ?case by simp
next
  case (Cons p ps)
  show ?case
  proof (cases "insert_row (ef k) work p")
    case (Pair e w)
    show ?thesis
    proof (cases e)
      case (Some err)
      with Pair show ?thesis by (simp add: Rollback_def)
    next
      case None
      with Pair obtain row where row: "to_row p = Some row" and w: "w = work @ [row]"
        by (auto simp: insert_row_def split: if_splits option.splits)
      from Pair None have step: "bulk_insert ef k t work (p # ps) = bulk_insert ef (Suc k) t w ps"
        by simp
      show ?thesis
      proof (cases "bulk_insert ef (Suc k) t w ps")
        case (Pair e' w')
        show ?thesis
        proof (cases e')
          case (Some err)
          with Pair Cons.IH [where k = "Suc k" and work = w] step show ?thesis by simp
        next
          case None
          with Pair Cons.IH [where k = "Suc k" and work = w]
          obtain rows where "map to_row ps = map Some rows" and "w' = w @ rows" by auto
          with row w have "map to_row (p # ps) = map Some (row # rows) \<and> w' = work @ (row # rows)"
            by simp
          then have "\<exists>rows. map to_row (p # ps) = map Some rows \<and> w' = work @ rows" by blast
          with Pair None step show ?thesis by simp
        qed
      qed
    qed
  qed
qed

lemma round_half_away_of_int [simp]: "round_half_away (of_int k) = k"
proof -
  have "\<lfloor>of_int k + (1 / 2 :: real)\<rfloor> = k" by linarith
  moreover have "\<lfloor>- of_int k + (1 / 2 :: real)\<rfloor> = - k" by linarith
  ultimately show ?thesis by (simp add: round_half_away_def)
qed

lemma decimal_10_2_cents:
  "\<bar>k\<bar> < 10 ^ 10 \<Longrightarrow> decimal_10_2 (of_int k / 100) = Some (of_int k / 100)"
proof -
  assume a: "\<bar>k\<bar> < 10 ^ 10"
  have "\<bar>(of_int k :: real) / 100\<bar> < 10 ^ 8"
  proof -
    from a have "\<bar>of_int k :: real\<bar> < 10 ^ 10" by (metis of_int_abs of_int_less_iff of_int_numeral of_int_power)
    then show ?thesis by simp
  qed
  then show ?thesis by (simp add: decimal_10_2_def Let_def)
qed

lemma sample_rows:
  "to_row sample_a = Some (sample_a\<lparr>CreatedAt := 0, UpdatedAt := 0\<rparr>)"
  "to_row sample_b = Some (sample_b\<lparr>CreatedAt := 0, UpdatedAt := 0\<rparr>)"
  "to_row sample_c = Some (sample_c\<lparr>CreatedAt := 0, UpdatedAt := 0\<rparr>)"
  using decimal_10_2_cents [of 1000] decimal_10_2_cents [of 2000] decimal_10_2_cents [of 3000]
  by (simp_all add: to_row_def varchar_255_def timestamptz_def sample_defs)

text \<open>
  Claim C1. \<^verbatim>\<open>CreateBulk\<close> is all-or-nothing on either backend. On the persistent
  backend, whatever the transaction meets (a failing \<^verbatim>\<open>BeginTxx\<close>, a failing statement
  at any position, a value that a column refuses, a primary-key conflict, a failing
  \<^verbatim>\<open>Commit\<close>), a call that returns \<^verbatim>\<open>nil\<close> leaves the table extended by one row for
  every product of the batch, the row that the columns make of it, in the order of the
  batch; and a call that returns an error leaves the table exactly as it was. On the
  in-memory backend the call always returns \<^verbatim>\<open>nil\<close> and the slice is extended by the
  whole batch.
\<close>

theorem CreateBulk_all_or_nothing:
  "(case DB_CreateBulk env t products of
      (None, t') \<Rightarrow> (\<exists>rows. map to_row products = map Some rows \<and> t' = t @ rows)
    | (Some e, t') \<Rightarrow> t' = t)
   \<and> CreateBulk r products = (None, r @ products)"
proof -
  have "case DB_CreateBulk env t products of
      (None, t') \<Rightarrow> (\<exists>rows. map to_row products = map Some rows \<and> t' = t @ rows)
    | (Some e, t') \<Rightarrow> t' = t"
    using bulk_insert_all_or_nothing [where ef = "exec_fault env" and k = 0 and t = t
        and work = t and ps = products]
    by (auto simp: DB_CreateBulk_def BeginTxx_def Commit_def split: prod.splits option.splits)
  then show ?thesis by (simp add: CreateBulk_def)
qed

text \<open>
  Both failure paths on a table that holds \<open>row_a\<close>: the second product of the batch
  meets the primary key after the first was inserted in the transaction, and a batch that
  inserts cleanly meets a failing \<^verbatim>\<open>Commit\<close>. The table is unchanged either way.
\<close>

lemma DB_CreateBulk_failure_examples:
  "DB_CreateBulk no_fault [row_a] [sample_b, sample_a, sample_c]
     = (Some StorageError, [row_a])"
  "DB_CreateBulk (no_fault\<lparr>commit_fault := True\<rparr>) [row_a] [sample_b, sample_c]
     = (Some StorageError, [row_a])"
  "DB_CreateBulk no_fault [row_a] [sample_b, sample_c]
     = (None, [row_a, sample_b\<lparr>CreatedAt := 0, UpdatedAt := 0\<rparr>,
               sample_c\<lparr>CreatedAt := 0, UpdatedAt := 0\<rparr>])"
  by (simp_all add: DB_CreateBulk_def BeginTxx_def Commit_def Rollback_def insert_row_def
      no_fault_def sample_rows) (simp_all add: sample_defs row_defs)

section \<open>Creating, then reading\<close>

text \<open>
  Claim C4. For every creation payload (the valid ones among them) and every in-memory
  state in which the identifier drawn by \<^verbatim>\<open>ToProduct\<close> is not in use, \<^verbatim>\<open>Create\<close> of the
  converted product succeeds, and \<^verbatim>\<open>GetByID\<close> of the new identifier then returns a
  product with the payload's name, description and price, the new identifier, and
  \<open>created_at = updated_at\<close>.
\<close>

theorem Create_then_GetByID:
  assumes "i \<notin> ID ` set r"
  shows "\<exists>r' p. Create r (ToProduct req i now) = (None, r') \<and> GetByID r' i = Inr p
           \<and> Name p = ReqName req \<and> Description p = ReqDescription req
           \<and> Price p = ReqPrice req \<and> ID p = i \<and> CreatedAt p = UpdatedAt p"
proof -
  let ?p = "ToProduct req i now"
  have "GetByID (r @ [?p]) i = Inr ?p"
    using assms by (intro GetByID_append_fresh) (simp_all add: ToProduct_def)
  then show ?thesis
    by (simp add: Create_def ToProduct_def)
qed

theorem Create_then_GetByID_witness:
  "(9 :: uuid) \<notin> ID ` set [sample_a, sample_b]
   \<and> (\<exists>r' p. Create [sample_a, sample_b] (ToProduct widget 9 400) = (None, r')
          \<and> GetByID r' 9 = Inr p
          \<and> Name p = ReqName widget \<and> Description p = ReqDescription widget
          \<and> Price p = ReqPrice widget \<and> ID p = 9 \<and> CreatedAt p = UpdatedAt p)"
proof -
  have h: "(9 :: uuid) \<notin> ID ` set [sample_a, sample_b]" by (simp add: sample_defs)
  from h Create_then_GetByID [OF h, of widget 400] show ?thesis by (rule conjI)
qed

section \<open>Deleting, then reading\<close>

text \<open>
  Claim C5. For every product \<open>p\<close> of an in-memory dataset with pairwise different
  identifiers, \<^verbatim>\<open>Delete\<close> of \<open>p\<close>'s identifier succeeds; the slice that remains is the old
  one with the last element written into \<open>p\<close>'s slot and then cut by one, so it holds
  the old products without \<open>p\<close> and is one shorter; and \<^verbatim>\<open>GetByID\<close> of the identifier
  then fails with \<open>NotFound\<close>.
\<close>

theorem Delete_then_GetByID:
  assumes "distinct (map ID r)" and "p \<in> set r"
  shows "\<exists>k r'. k < length r \<and> r ! k = p \<and> Delete r (ID p) = (None, r')
           \<and> r' = butlast (r[k := last r])
           \<and> mset r' = mset r - {#p#} \<and> length r' = length r - 1
           \<and> GetByID r' (ID p) = Inl NotFound"
proof -
  from assms(2) obtain m where m: "scan r (ID p) 0 = Some m"
    using scan_exists [of "ID p" r] by auto
  then have mk: "m < length r" "ID (r ! m) = ID p" using scan_0_Some by blast+
  from assms(2) obtain j where j: "j < length r" "r ! j = p" by (auto simp: in_set_conv_nth)
  with mk assms(1) have "m = j" using distinct_ID_index [of r m j] by simp
  with j have rm: "r ! m = p" by simp
  let ?r' = "butlast (r[m := last r])"
  have d: "Delete r (ID p) = (None, ?r')" using m by (rule Delete_eq)
  have ms: "mset ?r' = mset r - {#p#}" using mset_swap_remove [OF mk(1)] rm by simp
  have "mset (map ID ?r') = image_mset ID (mset r - {#p#})" using ms by (metis mset_map)
  also have "\<dots> = image_mset ID (mset r) - {#ID p#}"
    using assms(2) by (simp add: image_mset_Diff)
  finally have "mset (map ID ?r') = mset (map ID r) - {#ID p#}" by simp
  moreover have "count (mset (map ID r)) (ID p) \<le> 1"
    using assms(1) by (metis distinct_count_atmost_1 le_refl zero_le_one)
  ultimately have "count (mset (map ID ?r')) (ID p) = 0" by simp
  then have "ID p \<notin> set (map ID ?r')" by (metis count_mset_0_iff)
  then have g: "GetByID ?r' (ID p) = Inl NotFound" by (simp add: GetByID_NotFound)
  have l: "length ?r' = length r - 1" by simp
  from mk(1) rm d ms l g show ?thesis by blast
qed

theorem Delete_then_GetByID_witness:
  "distinct (map ID [sample_a, sample_b, sample_c]) \<and> sample_a \<in> set [sample_a, sample_b, sample_c]
   \<and> (\<exists>k r'. k < length [sample_a, sample_b, sample_c]
          \<and> [sample_a, sample_b, sample_c] ! k = sample_a
          \<and> Delete [sample_a, sample_b, sample_c] (ID sample_a) = (None, r')
          \<and> r' = butlast ([sample_a, sample_b, sample_c][k := last [sample_a, sample_b, sample_c]])
          \<and> mset r' = mset [sample_a, sample_b, sample_c] - {#sample_a#}
          \<and> length r' = length [sample_a, sample_b, sample_c] - 1
          \<and> GetByID r' (ID sample_a) = Inl NotFound)"
proof -
  have h1: "distinct (map ID [sample_a, sample_b, sample_c])" by (simp add: sample_defs)
  have h2: "sample_a \<in> set [sample_a, sample_b, sample_c]" by simp
  from h1 h2 Delete_then_GetByID [OF h1 h2] show ?thesis by (intro conjI)
qed

section \<open>The frame of an update\<close>

text \<open>
  Claim C7. For every in-memory state and identifier: if a product with the identifier
  exists, \<^verbatim>\<open>Update\<close> succeeds and overwrites the name, description, price and
  \<open>updated_at\<close> of the first such product, leaving its identifier, its \<open>created_at\<close>, the
  length of the slice and every other element as they were; if none exists, \<^verbatim>\<open>Update\<close>
  returns \<open>NotFound\<close> and the slice is unchanged.
\<close>

theorem Update_frame:
  "(i \<in> ID ` set r \<longrightarrow>
      (\<exists>k r'. k < length r \<and> ID (r ! k) = i \<and> (\<forall>j<k. ID (r ! j) \<noteq> i)
         \<and> Update r i req now = (None, r') \<and> length r' = length r
         \<and> Name (r' ! k) = ReqName req \<and> Description (r' ! k) = ReqDescription req
         \<and> Price (r' ! k) = ReqPrice req \<and> UpdatedAt (r' ! k) = now
         \<and> ID (r' ! k) = ID (r ! k) \<and> CreatedAt (r' ! k) = CreatedAt (r ! k)
         \<and> (\<forall>j<length r. j \<noteq> k \<longrightarrow> r' ! j = r ! j)))
   \<and> (i \<notin> ID ` set r \<longrightarrow> Update r i req now = (Some NotFound, r))"
proof (intro conjI impI)
  assume "i \<in> ID ` set r"
  then obtain k where k: "scan r i 0 = Some k" using scan_exists by blast
  then have kk: "k < length r" "ID (r ! k) = i" "\<forall>j<k. ID (r ! j) \<noteq> i"
    using scan_0_Some by blast+
  let ?q = "(r ! k)\<lparr>Name := ReqName req, Description := ReqDescription req,
                    Price := ReqPrice req, UpdatedAt := now\<rparr>"
  have u: "Update r i req now = (None, r[k := ?q])" using k by (simp add: Update_def)
  show "\<exists>k r'. k < length r \<and> ID (r ! k) = i \<and> (\<forall>j<k. ID (r ! j) \<noteq> i)
         \<and> Update r i req now = (None, r') \<and> length r' = length r
         \<and> Name (r' ! k) = ReqName req \<and> Description (r' ! k) = ReqDescription req
         \<and> Price (r' ! k) = ReqPrice req \<and> UpdatedAt (r' ! k) = now
         \<and> ID (r' ! k) = ID (r ! k) \<and> CreatedAt (r' ! k) = CreatedAt (r ! k)
         \<and> (\<forall>j<length r. j \<noteq> k \<longrightarrow> r' ! j = r ! j)"
    apply (rule exI [of _ k], rule exI [of _ "r[k := ?q]"])
    using kk u by simp
next
  assume "i \<notin> ID ` set r"
  then have "scan r i 0 = None" by (simp add: scan_None)
  then show "Update r i req now = (Some NotFound, r)" by (simp add: Update_def)
qed

theorem Update_frame_witness:
  "(2 :: uuid) \<in> ID ` set [sample_a, sample_b, sample_c]
   \<and> (7 :: uuid) \<notin> ID ` set [sample_a, sample_b, sample_c]
   \<and> (\<exists>k r'. k < length [sample_a, sample_b, sample_c]
         \<and> ID ([sample_a, sample_b, sample_c] ! k) = 2
         \<and> (\<forall>j<k. ID ([sample_a, sample_b, sample_c] ! j) \<noteq> 2)
         \<and> Update [sample_a, sample_b, sample_c] 2 widget_pro 500 = (None, r')
         \<and> length r' = length [sample_a, sample_b, sample_c]
         \<and> Name (r' ! k) = ReqName widget_pro \<and> Description (r' ! k) = ReqDescription widget_pro
         \<and> Price (r' ! k) = ReqPrice widget_pro \<and> UpdatedAt (r' ! k) = 500
         \<and> ID (r' ! k) = ID ([sample_a, sample_b, sample_c] ! k)
         \<and> CreatedAt (r' ! k) = CreatedAt ([sample_a, sample_b, sample_c] ! k)
         \<and> (\<forall>j<length [sample_a, sample_b, sample_c].
               j \<noteq> k \<longrightarrow> r' ! j = [sample_a, sample_b, sample_c] ! j))
   \<and> Update [sample_a, sample_b, sample_c] 7 widget_pro 500
       = (Some NotFound, [sample_a, sample_b, sample_c])"
proof -
  have h1: "(2 :: uuid) \<in> ID ` set [sample_a, sample_b, sample_c]" by (simp add: sample_defs)
  have h2: "(7 :: uuid) \<notin> ID ` set [sample_a, sample_b, sample_c]" by (simp add: sample_defs)
  note t1 = Update_frame [of 2 "[sample_a, sample_b, sample_c]" widget_pro 500, THEN conjunct1,
      THEN mp, OF h1]
  note t2 = Update_frame [of 7 "[sample_a, sample_b, sample_c]" widget_pro 500, THEN conjunct2,
      THEN mp, OF h2]
  from h1 h2 t1 t2 show ?thesis by (intro conjI)
qed

section \<open>Pagination of the in-memory backend\<close>

subsection \<open>Index arithmetic that stays inside \<^verbatim>\<open>int\<close>\<close>

lemma sint_len: "length xs < 2 ^ 63 \<Longrightarrow> sint (len xs) = int (length xs)"
proof -
  assume a: "length xs < 2 ^ 63"
  then have "int (length xs) < 2 ^ 63"
    by (metis of_nat_less_iff of_nat_numeral of_nat_power)
  then have "signed_take_bit 63 (int (length xs)) = int (length xs)"
    by (intro signed_take_bit_int_eq_self) simp_all
  then show ?thesis by (simp add: len_def signed_of_nat)
qed

lemma sint_in_range:
  fixes k :: int
  shows "- (2 ^ 63) \<le> k \<Longrightarrow> k < 2 ^ 63 \<Longrightarrow> signed_take_bit (LENGTH(64) - 1) k = k"
  by (simp add: signed_take_bit_int_eq_self)

lemma sint_bounds: "- (2 ^ 63) \<le> sint (w :: goint)" "sint (w :: goint) < 2 ^ 63"
  using sint_ge [of w] sint_lt [of w] by simp_all

lemma sint_pred:
  fixes page :: goint
  assumes "- (2 ^ 63) < sint page"
  shows "sint (page - 1) = sint page - 1"
proof -
  have "sint (page - 1) = signed_take_bit (LENGTH(64) - 1) (sint page - sint (1 :: goint))"
    by (rule sint_word_diff)
  also have "\<dots> = sint page - 1"
    using assms sint_bounds(2) [of page] by (simp add: signed_take_bit_int_eq_self)
  finally show ?thesis .
qed

lemma sint_start:
  fixes page pageSize :: goint
  assumes "- (2 ^ 63) < sint page"
    and "- (2 ^ 63) \<le> (sint page - 1) * sint pageSize"
    and "(sint page - 1) * sint pageSize < 2 ^ 63"
  shows "sint ((page - 1) * pageSize) = (sint page - 1) * sint pageSize"
proof -
  have "sint ((page - 1) * pageSize)
      = signed_take_bit (LENGTH(64) - 1) (sint (page - 1) * sint pageSize)"
    by (rule sint_word_mult)
  also have "\<dots> = signed_take_bit (LENGTH(64) - 1) ((sint page - 1) * sint pageSize)"
    using assms(1) by (simp add: sint_pred)
  also have "\<dots> = (sint page - 1) * sint pageSize"
    using assms(2,3) by (rule sint_in_range)
  finally show ?thesis .
qed

lemma sint_add_in_range:
  fixes a b :: goint
  assumes "- (2 ^ 63) \<le> sint a + sint b" "sint a + sint b < 2 ^ 63"
  shows "sint (a + b) = sint a + sint b"
  using assms by (simp add: sint_word_add signed_take_bit_int_eq_self)

lemma sint_diff_in_range:
  fixes a b :: goint
  assumes "- (2 ^ 63) \<le> sint a - sint b" "sint a - sint b < 2 ^ 63"
  shows "sint (a - b) = sint a - sint b"
  using assms by (simp add: sint_word_diff signed_take_bit_int_eq_self)

lemma List_panic:
  assumes "page_bounds (len r) page pageSize = Some (s, e)" and "sint s < 0"
  shows "List r page pageSize = Inl Panic"
  using assms
  by (simp add: List_def make_slice_def slice_expr_def word_sle_eq)

lemma List_slice:
  assumes n: "length r < 2 ^ 63"
    and pb: "page_bounds (len r) page pageSize = Some (s, e)"
    and b: "0 \<le> sint s" "sint s \<le> sint e" "sint e \<le> int (length r)"
  shows "List r page pageSize = Inr (take (nat (sint e) - nat (sint s)) (drop (nat (sint s)) r))"
proof -
  have d: "sint (e - s) = sint e - sint s"
    using b sint_bounds(2) [of e] by (intro sint_diff_in_range) simp_all
  then have m: "make_slice (e - s) = Inr (replicate (nat (sint e - sint s)) zero_Product)"
    using b by (simp add: make_slice_def word_sless_alt)
  have sl: "slice_expr r s e = Inr (take (nat (sint e) - nat (sint s)) (drop (nat (sint s)) r))"
    using b n by (simp add: slice_expr_def word_sle_eq sint_len)
  have l: "length (take (nat (sint e) - nat (sint s)) (drop (nat (sint s)) r))
      = nat (sint e - sint s)"
    using b by simp
  have c: "copy (replicate (nat (sint e - sint s)) zero_Product)
             (take (nat (sint e) - nat (sint s)) (drop (nat (sint s)) r))
         = take (nat (sint e) - nat (sint s)) (drop (nat (sint s)) r)"
    unfolding copy_def Let_def l by simp
  show ?thesis
    unfolding List_def pb using m sl c by simp
qed

lemma page_bounds_in_range:
  assumes n: "length r < 2 ^ 62"
    and p: "1 \<le> sint page" and z: "0 \<le> sint pageSize"
    and m: "(sint page - 1) * sint pageSize < 2 ^ 63"
  shows "page_bounds (len r) page pageSize =
     (if int (length r) \<le> (sint page - 1) * sint pageSize then None
      else Some ((page - 1) * pageSize,
                 if int (length r) < (sint page - 1) * sint pageSize + sint pageSize
                 then len r else (page - 1) * pageSize + pageSize))"
    and "int (length r) > (sint page - 1) * sint pageSize \<Longrightarrow>
           sint ((page - 1) * pageSize + pageSize) = (sint page - 1) * sint pageSize + sint pageSize"
    and "sint ((page - 1) * pageSize) = (sint page - 1) * sint pageSize"
proof -
  let ?S = "(sint page - 1) * sint pageSize"
  have nn: "0 \<le> ?S" using p z by simp
  show s: "sint ((page - 1) * pageSize) = ?S"
    using p nn m by (intro sint_start) simp_all
  have l: "sint (len r) = int (length r)" using n by (intro sint_len) simp
  have e: "sint ((page - 1) * pageSize + pageSize) = ?S + sint pageSize"
    if lt: "?S < int (length r)"
  proof -
    have "int (length r) < 2 ^ 62" using n
      by (metis of_nat_less_iff of_nat_numeral of_nat_power)
    with lt have s62: "?S < 2 ^ 62" by simp
    have "?S + sint pageSize < 2 ^ 63"
    proof (cases "sint page = 1")
      case True
      then show ?thesis using sint_bounds(2) [of pageSize] by simp
    next
      case False
      with p have "1 \<le> sint page - 1" by simp
      then have "1 * sint pageSize \<le> (sint page - 1) * sint pageSize"
        using z by (intro mult_right_mono) simp_all
      with s62 show ?thesis by simp
    qed
    with nn z show ?thesis
      using s by (intro sint_add_in_range [THEN trans]) simp_all
  qed
  then show "int (length r) > ?S \<Longrightarrow>
           sint ((page - 1) * pageSize + pageSize) = ?S + sint pageSize" by simp
  show "page_bounds (len r) page pageSize =
     (if int (length r) \<le> ?S then None
      else Some ((page - 1) * pageSize,
                 if int (length r) < ?S + sint pageSize
                 then len r else (page - 1) * pageSize + pageSize))"
    using e s l by (simp add: page_bounds_def Let_def word_sle_eq word_sless_alt)
qed

lemma List_in_range:
  assumes n: "length r < 2 ^ 62"
    and p: "1 \<le> sint page" and z: "0 \<le> sint pageSize"
    and m: "(sint page - 1) * sint pageSize < 2 ^ 63"
  shows "List r page pageSize =
           Inr (take (nat (sint pageSize)) (drop (nat ((sint page - 1) * sint pageSize)) r))"
proof -
  let ?S = "(sint page - 1) * sint pageSize"
  let ?s = "(page - 1) * pageSize"
  note pb = page_bounds_in_range [OF n p z m]
  have nn: "0 \<le> ?S" using p z by simp
  have n63: "length r < 2 ^ 63" using n by (rule less_trans) simp
  have l: "sint (len r) = int (length r)" using n63 by (rule sint_len)
  show ?thesis
  proof (cases "int (length r) \<le> ?S")
    case True
    then have "length r \<le> nat ?S" by simp
    then have "drop (nat ?S) r = []" by simp
    with True pb(1) show ?thesis by (simp add: List_def)
  next
    case False
    then have lt: "?S < int (length r)" by simp
    show ?thesis
    proof (cases "int (length r) < ?S + sint pageSize")
      case True
      with False pb(1) have b: "page_bounds (len r) page pageSize = Some (?s, len r)" by simp
      have "List r page pageSize
          = Inr (take (nat (sint (len r)) - nat (sint ?s)) (drop (nat (sint ?s)) r))"
        using n63 b by (rule List_slice) (simp_all add: pb(3) l nn less_imp_le [OF lt])
      also have "\<dots> = Inr (take (length r - nat ?S) (drop (nat ?S) r))"
        by (simp add: pb(3) l)
      also have "\<dots> = Inr (drop (nat ?S) r)" by simp
      also have "\<dots> = Inr (take (nat (sint pageSize)) (drop (nat ?S) r))"
        using True nn by simp
      finally show ?thesis .
    next
      case ge: False
      with False pb(1)
      have b: "page_bounds (len r) page pageSize = Some (?s, ?s + pageSize)" by simp
      have e: "sint (?s + pageSize) = ?S + sint pageSize" using lt by (rule pb(2))
      have "List r page pageSize
          = Inr (take (nat (sint (?s + pageSize)) - nat (sint ?s)) (drop (nat (sint ?s)) r))"
        using n63 b by (rule List_slice) (use ge nn z in \<open>simp_all add: pb(3) e\<close>)
      also have "nat (sint (?s + pageSize)) - nat (sint ?s) = nat (sint pageSize)"
        using nn z by (simp add: pb(3) e)
      finally show ?thesis by (simp add: pb(3))
    qed
  qed
qed

lemma sint_succ:
  fixes page :: goint
  assumes "sint page < 2 ^ 63 - 1"
  shows "sint (page + 1) = sint page + 1"
  using assms sint_bounds(1) [of page] by (intro sint_add_in_range [THEN trans]) simp_all

lemma collect_pages_take_drop:
  assumes n: "length r < 2 ^ 62"
    and z: "1 \<le> sint pageSize" "sint pageSize \<le> 100"
    and pages: "\<And>page. 1 \<le> sint page \<Longrightarrow> (sint page - 1) * sint pageSize < 2 ^ 63 \<Longrightarrow>
        list page pageSize
          = Inr (take (nat (sint pageSize)) (drop (nat ((sint page - 1) * sint pageSize)) r))"
    and p: "1 \<le> sint page"
    and s: "(sint page - 1) * sint pageSize \<le> int (length r) + sint pageSize"
  shows "collect_pages list pageSize page
           = Some (Inr (drop (nat ((sint page - 1) * sint pageSize)) r))"
  using p s
proof (induction "length r - nat ((sint page - 1) * sint pageSize)" arbitrary: page
    rule: less_induct)
  case less
  let ?S = "(sint page - 1) * sint pageSize"
  have n62: "int (length r) < 2 ^ 62" using n
    by (metis of_nat_less_iff of_nat_numeral of_nat_power)
  have nn: "0 \<le> ?S" using less.prems(1) z by simp
  have m: "?S < 2 ^ 63" using less.prems(2) n62 z by simp
  have L: "list page pageSize = Inr (take (nat (sint pageSize)) (drop (nat ?S) r))"
    using less.prems(1) m by (rule pages)
  show ?case
  proof (cases "int (length r) \<le> ?S")
    case True
    then have "drop (nat ?S) r = []" by simp
    with L show ?thesis by (subst collect_pages.simps) simp
  next
    case False
    then have lt: "?S < int (length r)" by simp
    then have ne: "take (nat (sint pageSize)) (drop (nat ?S) r) \<noteq> []"
      using z nn by simp
    have "1 * (sint page - 1) \<le> sint pageSize * (sint page - 1)"
      using z less.prems(1) by (intro mult_right_mono) simp_all
    with lt n62 have "sint page - 1 < 2 ^ 62" by (simp add: mult.commute)
    then have sp: "sint (page + 1) = sint page + 1" by (intro sint_succ) simp
    have S': "(sint (page + 1) - 1) * sint pageSize = ?S + sint pageSize"
      unfolding sp by (simp add: algebra_simps)
    have "length r - nat ((sint (page + 1) - 1) * sint pageSize) < length r - nat ?S"
      using lt nn z unfolding S' by linarith
    moreover have "1 \<le> sint (page + 1)" using sp less.prems(1) by simp
    moreover have "(sint (page + 1) - 1) * sint pageSize \<le> int (length r) + sint pageSize"
      unfolding S' using lt by simp
    ultimately have IH: "collect_pages list pageSize (page + 1)
        = Some (Inr (drop (nat (?S + sint pageSize)) r))"
      using less.hyps [of "page + 1"] unfolding S' by simp
    have d: "drop (nat (?S + sint pageSize)) r = drop (nat (sint pageSize)) (drop (nat ?S) r)"
      using nn z by (simp add: nat_add_distrib add.commute)
    have "take (nat (sint pageSize)) (drop (nat ?S) r) @ drop (nat (?S + sint pageSize)) r
        = drop (nat ?S) r"
      unfolding d by (rule append_take_drop_id)
    with L ne IH show ?thesis by (subst collect_pages.simps) simp
  qed
qed

subsection \<open>Index arithmetic that wraps around\<close>

text \<open>
  Claim C2 says that for every \<open>page \<ge> 1\<close> and \<open>pageSize \<ge> 1\<close>, \<^verbatim>\<open>List\<close> returns the
  products at the positions \<open>[start, min (start + pageSize) n)\<close> with
  \<open>start = (page - 1) * pageSize\<close>, the empty list when \<open>start \<ge> n\<close>. The code computes
  \<open>start\<close> in 64-bit arithmetic. With one product stored, page \<open>2 ^ 62 + 1\<close> of size 4
  has \<open>start = 2 ^ 64\<close>, far beyond the data, but the product wraps to 0 and the call
  returns the first page; with size 2 the product wraps to \<open>- 2 ^ 63\<close>, both checks
  pass, and the slice expression panics. \<open>List_in_range\<close> above is the claim for the
  calls whose \<open>start\<close> fits \<^verbatim>\<open>int\<close>.
\<close>

theorem List_start_wraps:
  "sint (4611686018427387905 :: goint) = 2 ^ 62 + 1
   \<and> List [sample_a] 4611686018427387905 4 = Inr [sample_a]
   \<and> List [sample_a] 4611686018427387905 2 = Inl Panic"
  by (simp add: List_def page_bounds_def len_def make_slice_def slice_expr_def copy_def
      word_sle_eq word_sless_alt)

subsection \<open>Reading a dataset page by page\<close>

lemma pages_of_List:
  assumes "length r < 2 ^ 62" and "1 \<le> sint pageSize" and "sint pageSize \<le> 100"
  shows "collect_pages (List r) pageSize 1 = Some (Inr r)"
proof -
  have "collect_pages (List r) pageSize 1
      = Some (Inr (drop (nat ((sint (1 :: goint) - 1) * sint pageSize)) r))"
  proof (rule collect_pages_take_drop [OF assms])
    fix page :: goint
    assume "1 \<le> sint page" and "(sint page - 1) * sint pageSize < 2 ^ 63"
    with assms(1) show "List r page pageSize
        = Inr (take (nat (sint pageSize)) (drop (nat ((sint page - 1) * sint pageSize)) r))"
      by (intro List_in_range) (use assms(2) in simp_all)
  qed (use assms in simp_all)
  then show ?thesis by simp
qed

lemma order_by_created_at_desc_unique:
  assumes "distinct (map CreatedAt t)"
  shows "order_by_created_at_desc tie t = order_by_created_at_desc tie' t"
proof -
  let ?f = "\<lambda>p :: Product. - CreatedAt p"
  have "inj_on CreatedAt (set t)" using assms by (simp add: distinct_map)
  then have "inj_on ?f (set (sort_key tie t))" by (auto simp: inj_on_def)
  moreover have "mset (sort_key tie t) = mset (sort_key ?f (sort_key tie' t))" by simp
  moreover have "sorted (map ?f (sort_key ?f (sort_key tie' t)))" by (rule sorted_sort_key)
  ultimately have "sort_key ?f (sort_key tie t) = sort_key ?f (sort_key tie' t)"
    by (intro sort_key_inj_key_eq)
  then show ?thesis by (simp add: order_by_created_at_desc_def)
qed

lemma DB_List_in_range:
  assumes p: "1 \<le> sint page" and z: "0 \<le> sint pageSize"
    and m: "(sint page - 1) * sint pageSize < 2 ^ 63"
  shows "DB_List False tie t page pageSize
           = Inr (take (nat (sint pageSize)) (drop (nat ((sint page - 1) * sint pageSize))
                    (order_by_created_at_desc tie t)))"
proof -
  have nn: "0 \<le> (sint page - 1) * sint pageSize" using p z by simp
  have "sint ((page - 1) * pageSize) = (sint page - 1) * sint pageSize"
    using p nn m by (intro sint_start) simp_all
  then show ?thesis using z nn by (simp add: DB_List_def Let_def word_sless_alt)
qed

lemma pages_of_DB_List:
  assumes n: "length t < 2 ^ 62" and z: "1 \<le> sint pageSize" "sint pageSize \<le> 100"
    and d: "distinct (map CreatedAt t)"
  shows "collect_pages (\<lambda>page pageSize. DB_List False (ties page) t page pageSize) pageSize 1
           = Some (Inr (order_by_created_at_desc tie t))"
proof -
  let ?xs = "order_by_created_at_desc tie t"
  have len: "length ?xs < 2 ^ 62" using n by (simp add: order_by_created_at_desc_def)
  have "collect_pages (\<lambda>page pageSize. DB_List False (ties page) t page pageSize) pageSize 1
      = Some (Inr (drop (nat ((sint (1 :: goint) - 1) * sint pageSize)) ?xs))"
  proof (rule collect_pages_take_drop [OF len z])
    fix page :: goint
    assume "1 \<le> sint page" and "(sint page - 1) * sint pageSize < 2 ^ 63"
    then have "DB_List False (ties page) t page pageSize
        = Inr (take (nat (sint pageSize)) (drop (nat ((sint page - 1) * sint pageSize))
                 (order_by_created_at_desc (ties page) t)))"
      using z(1) by (intro DB_List_in_range) simp_all
    then show "DB_List False (ties page) t page pageSize
        = Inr (take (nat (sint pageSize)) (drop (nat ((sint page - 1) * sint pageSize)) ?xs))"
      using order_by_created_at_desc_unique [OF d, of "ties page" tie] by simp
  qed (use z in simp_all)
  then show ?thesis by simp
qed

lemmas db_list_eval = DB_List_def order_by_created_at_desc_def word_sless_alt

text \<open>
  Claim C6, amended. For every page size from 1 to 100 and every dataset of a length
  that a slice can have, reading page 1, page 2 and so on until the first empty page
  ends and fails nowhere. On the in-memory backend the concatenation of the pages is the
  dataset itself: every product once, in insertion order. On the persistent backend,
  when no statement fails and the rows have pairwise different \<^verbatim>\<open>created_at\<close>, the
  concatenation is the table ordered by \<^verbatim>\<open>created_at\<close> descending: every row once,
  whatever the engine settles in each query.
\<close>

theorem pages_enumerate_dataset:
  "(length r < 2 ^ 62 \<and> 1 \<le> sint pageSize \<and> sint pageSize \<le> 100 \<longrightarrow>
      collect_pages (List r) pageSize 1 = Some (Inr r))
   \<and> (length t < 2 ^ 62 \<and> 1 \<le> sint pageSize \<and> sint pageSize \<le> 100
       \<and> distinct (map CreatedAt t) \<longrightarrow>
      (\<exists>xs. collect_pages (\<lambda>page pageSize. DB_List False (ties page) t page pageSize) pageSize 1
               = Some (Inr xs)
         \<and> xs = order_by_created_at_desc tie t \<and> mset xs = mset t \<and> distinct xs))"
proof (intro conjI impI; elim conjE)
  assume "length r < 2 ^ 62" and "1 \<le> sint pageSize" and "sint pageSize \<le> 100"
  then show "collect_pages (List r) pageSize 1 = Some (Inr r)" by (rule pages_of_List)
next
  assume a: "length t < 2 ^ 62" "1 \<le> sint pageSize" "sint pageSize \<le> 100"
    and d: "distinct (map CreatedAt t)"
  let ?xs = "order_by_created_at_desc tie t"
  have "collect_pages (\<lambda>page pageSize. DB_List False (ties page) t page pageSize) pageSize 1
      = Some (Inr ?xs)"
    using a d by (rule pages_of_DB_List)
  moreover have "mset ?xs = mset t" by (simp add: order_by_created_at_desc_def)
  moreover have "distinct t" using d by (simp add: distinct_map)
  then have "distinct ?xs" by (simp add: order_by_created_at_desc_def)
  ultimately show "\<exists>xs. collect_pages (\<lambda>page pageSize. DB_List False (ties page) t page pageSize)
                     pageSize 1 = Some (Inr xs)
         \<and> xs = order_by_created_at_desc tie t \<and> mset xs = mset t \<and> distinct xs"
    by blast
qed

theorem pages_enumerate_dataset_witness:
  "length [sample_a, sample_b, sample_c] < 2 ^ 62 \<and> 1 \<le> sint (2 :: goint)
   \<and> sint (2 :: goint) \<le> 100
   \<and> collect_pages (List [sample_a, sample_b, sample_c]) 2 1
        = Some (Inr [sample_a, sample_b, sample_c])
   \<and> length [row_a, row_b, row_c] < 2 ^ 62 \<and> distinct (map CreatedAt [row_a, row_b, row_c])
   \<and> collect_pages (\<lambda>page pageSize. DB_List False (ranks page) [row_a, row_b, row_c] page pageSize)
        2 1 = Some (Inr [row_c, row_b, row_a])"
proof -
  have h1: "length [sample_a, sample_b, sample_c] < 2 ^ 62 \<and> 1 \<le> sint (2 :: goint)
      \<and> sint (2 :: goint) \<le> 100" by simp
  have h2: "length [row_a, row_b, row_c] < 2 ^ 62 \<and> 1 \<le> sint (2 :: goint)
      \<and> sint (2 :: goint) \<le> 100 \<and> distinct (map CreatedAt [row_a, row_b, row_c])"
    by (simp add: row_defs)
  note t1 = pages_enumerate_dataset [of "[sample_a, sample_b, sample_c]" 2 "[row_a, row_b, row_c]"
      ranks rank_up, THEN conjunct1, THEN mp, OF h1]
  note t2 = pages_enumerate_dataset [of "[sample_a, sample_b, sample_c]" 2 "[row_a, row_b, row_c]"
      ranks rank_up, THEN conjunct2, THEN mp, OF h2]
  have o: "order_by_created_at_desc rank_up [row_a, row_b, row_c] = [row_c, row_b, row_a]"
    by (simp add: order_by_created_at_desc_def row_defs)
  from t2 o have "collect_pages
      (\<lambda>page pageSize. DB_List False (ranks page) [row_a, row_b, row_c] page pageSize) 2 1
        = Some (Inr [row_c, row_b, row_a])" by auto
  with h1 h2 t1 show ?thesis by simp
qed

text \<open>
  With two rows of the same \<^verbatim>\<open>created_at\<close> the claim fails on the persistent backend:
  the engine may put either row first, and need not settle it the same way in the query
  for page 2 as in the query for page 1. Then one row is read twice and the other never.
\<close>

theorem pages_repeat_with_ties:
  "collect_pages (\<lambda>page pageSize. DB_List False (ranks page) [row_a, row_d] page pageSize) 1 1
     = Some (Inr [row_a, row_a])
   \<and> row_d \<in> set [row_a, row_d] \<and> row_d \<noteq> row_a
   \<and> CreatedAt row_a = CreatedAt row_d"
proof -
  have p1: "DB_List False (ranks 1) [row_a, row_d] 1 1 = Inr [row_a]"
    by (simp add: db_list_eval row_defs)
  have p2: "DB_List False (ranks 2) [row_a, row_d] 2 1 = Inr [row_a]"
    by (simp add: db_list_eval row_defs)
  have p3: "DB_List False (ranks 3) [row_a, row_d] 3 1 = Inr []"
    by (simp add: db_list_eval row_defs)
  let ?l = "\<lambda>page pageSize. DB_List False (ranks page) [row_a, row_d] page pageSize"
  have c3: "collect_pages ?l 1 3 = Some (Inr [])"
    by (subst collect_pages.simps) (simp add: p3)
  have c2: "collect_pages ?l 1 2 = Some (Inr [row_a])"
    using c3 by (subst collect_pages.simps) (simp add: p2)
  have c1: "collect_pages ?l 1 1 = Some (Inr [row_a, row_a])"
    using c2 by (subst collect_pages.simps) (simp add: p1)
  then show ?thesis by (simp add: row_defs)
qed

subsection \<open>When the slice expression is in bounds\<close>

text \<open>
  Claim C10, amended. As long as the product \<open>(page - 1) * pageSize\<close> fits \<^verbatim>\<open>int\<close>:
  for \<open>page \<ge> 1\<close> and \<open>pageSize \<ge> 0\<close> the indices that reach the slice expression satisfy
  \<open>0 \<le> startIndex \<le> endIndex \<le> n\<close>, and \<^verbatim>\<open>List\<close> returns a list; for \<open>page \<le> 0\<close> and
  \<open>pageSize \<ge> 1\<close> the first check lets a negative \<open>startIndex\<close> through and \<^verbatim>\<open>List\<close>
  panics instead of returning the empty list. (\<open>n\<close> is the number of products, below
  \<open>2 ^ 62\<close>.)
\<close>

theorem List_indices_safe:
  "(length r < 2 ^ 62 \<and> 1 \<le> sint page \<and> 0 \<le> sint pageSize
      \<and> (sint page - 1) * sint pageSize < 2 ^ 63 \<longrightarrow>
        (\<forall>s e. page_bounds (len r) page pageSize = Some (s, e) \<longrightarrow>
           0 \<le> sint s \<and> sint s \<le> sint e \<and> sint e \<le> int (length r))
        \<and> (\<exists>xs. List r page pageSize = Inr xs))
   \<and> (length r < 2 ^ 63 \<and> sint page \<le> 0 \<and> 1 \<le> sint pageSize
      \<and> - (2 ^ 63) \<le> (sint page - 1) * sint pageSize \<longrightarrow>
        (\<exists>s e. page_bounds (len r) page pageSize = Some (s, e) \<and> sint s < 0)
        \<and> List r page pageSize = Inl Panic)"
proof (intro conjI impI; elim conjE)
  assume n: "length r < 2 ^ 62" and p: "1 \<le> sint page" and z: "0 \<le> sint pageSize"
    and m: "(sint page - 1) * sint pageSize < 2 ^ 63"
  let ?S = "(sint page - 1) * sint pageSize"
  note pb = page_bounds_in_range [OF n p z m]
  have nn: "0 \<le> ?S" using p z by simp
  have l: "sint (len r) = int (length r)" using n by (intro sint_len) simp
  show "\<forall>s e. page_bounds (len r) page pageSize = Some (s, e) \<longrightarrow>
           0 \<le> sint s \<and> sint s \<le> sint e \<and> sint e \<le> int (length r)"
  proof (intro allI impI)
    fix s e assume b: "page_bounds (len r) page pageSize = Some (s, e)"
    with pb(1) have lt: "?S < int (length r)" by (simp split: if_splits)
    from b pb(1) lt have s: "s = (page - 1) * pageSize" by simp
    from b pb(1) lt have e: "e = (if int (length r) < ?S + sint pageSize
                 then len r else (page - 1) * pageSize + pageSize)" by simp
    show "0 \<le> sint s \<and> sint s \<le> sint e \<and> sint e \<le> int (length r)"
      using nn lt z by (simp add: s e pb(3) pb(2) [OF lt] l)
  qed
  show "\<exists>xs. List r page pageSize = Inr xs"
    using List_in_range [OF n p z m] by blast
next
  assume n: "length r < 2 ^ 63" and p: "sint page \<le> 0" and z: "1 \<le> sint pageSize"
    and m: "- (2 ^ 63) \<le> (sint page - 1) * sint pageSize"
  let ?S = "(sint page - 1) * sint pageSize"
  let ?s = "(page - 1) * pageSize"
  have "(sint page - 1) * sint pageSize \<le> (sint page - 1) * 1"
    using p z by (intro mult_left_mono_neg) simp_all
  then have S1: "?S \<le> sint page - 1" by simp
  with p have neg: "?S < 0" by simp
  from S1 m have "- (2 ^ 63) < sint page" by simp
  then have s: "sint ?s = ?S" using m neg by (intro sint_start) simp_all
  have l: "sint (len r) = int (length r)" using n by (rule sint_len)
  have b: "page_bounds (len r) page pageSize
      = Some (?s, if word_sless (len r) (?s + pageSize) then len r else ?s + pageSize)"
    using neg by (simp add: page_bounds_def Let_def word_sle_eq s l)
  then show "\<exists>s e. page_bounds (len r) page pageSize = Some (s, e) \<and> sint s < 0"
    using neg s by auto
  show "List r page pageSize = Inl Panic"
    using b by (rule List_panic) (simp add: s neg)
qed

theorem List_indices_safe_witness:
  "length [sample_a, sample_b, sample_c] < 2 ^ 62 \<and> 1 \<le> sint (2 :: goint)
   \<and> 0 \<le> sint (2 :: goint) \<and> (sint (2 :: goint) - 1) * sint (2 :: goint) < 2 ^ 63
   \<and> page_bounds (len [sample_a, sample_b, sample_c]) 2 2 = Some (2, 3)
   \<and> 0 \<le> sint (2 :: goint) \<and> sint (2 :: goint) \<le> sint (3 :: goint)
   \<and> sint (3 :: goint) \<le> int (length [sample_a, sample_b, sample_c])
   \<and> (\<exists>xs. List [sample_a, sample_b, sample_c] 2 2 = Inr xs)
   \<and> length [sample_a, sample_b, sample_c] < 2 ^ 63 \<and> sint (0 :: goint) \<le> 0
   \<and> 1 \<le> sint (1 :: goint) \<and> - (2 ^ 63) \<le> (sint (0 :: goint) - 1) * sint (1 :: goint)
   \<and> (\<exists>s e. page_bounds (len [sample_a, sample_b, sample_c]) 0 1 = Some (s, e) \<and> sint s < 0)
   \<and> List [sample_a, sample_b, sample_c] 0 1 = Inl Panic"
proof -
  let ?r = "[sample_a, sample_b, sample_c]"
  have h1: "length ?r < 2 ^ 62 \<and> 1 \<le> sint (2 :: goint) \<and> 0 \<le> sint (2 :: goint)
      \<and> (sint (2 :: goint) - 1) * sint (2 :: goint) < 2 ^ 63" by simp
  have h2: "length ?r < 2 ^ 63 \<and> sint (0 :: goint) \<le> 0 \<and> 1 \<le> sint (1 :: goint)
      \<and> - (2 ^ 63) \<le> (sint (0 :: goint) - 1) * sint (1 :: goint)" by simp
  have pb: "page_bounds (len ?r) 2 2 = Some (2, 3)"
    by (simp add: page_bounds_def len_def word_sle_eq word_sless_alt)
  note t1 = List_indices_safe [of ?r 2 2, THEN conjunct1, THEN mp, OF h1]
  note t2 = List_indices_safe [of ?r 0 1, THEN conjunct2, THEN mp, OF h2]
  from t1 pb have b: "0 \<le> sint (2 :: goint) \<and> sint (2 :: goint) \<le> sint (3 :: goint)
      \<and> sint (3 :: goint) \<le> int (length ?r)" by blast
  from t1 have x: "\<exists>xs. List ?r 2 2 = Inr xs" by blast
  from h1 pb b x h2 t2 show ?thesis by (intro conjI) blast+
qed

text \<open>
  The claim as it was stated, without the condition on the product, fails in both
  directions: page \<open>2 ^ 62 + 1\<close> of size 2 is positive and meets a negative
  \<open>startIndex\<close> and a panic, and page \<open>- 2 ^ 63\<close> of size 1 is not positive and returns
  the empty list.
\<close>

theorem List_indices_counterexample:
  "1 \<le> sint (4611686018427387905 :: goint) \<and> 0 \<le> sint (2 :: goint)
   \<and> page_bounds (len [sample_a]) 4611686018427387905 2
        = Some (- 9223372036854775808, - 9223372036854775806)
   \<and> sint (- 9223372036854775808 :: goint) < 0
   \<and> List [sample_a] 4611686018427387905 2 = Inl Panic
   \<and> sint (- 9223372036854775808 :: goint) \<le> 0 \<and> 1 \<le> sint (1 :: goint)
   \<and> page_bounds (len [sample_a]) (- 9223372036854775808) 1 = None
   \<and> List [sample_a] (- 9223372036854775808) 1 = Inr []"
  by (simp add: List_def page_bounds_def len_def make_slice_def slice_expr_def copy_def
      word_sle_eq word_sless_alt)

section \<open>The invariant along sequences of calls\<close>

lemma same_ID_same_product:
  "distinct (map ID r) \<Longrightarrow> p \<in> set r \<Longrightarrow> q \<in> set r \<Longrightarrow> ID p = ID q \<Longrightarrow> p = q"
  by (metis distinct_map inj_on_eq_iff)

lemma Update_eq_map:
  assumes d: "distinct (map ID r)" and s: "scan r i 0 = Some k"
  shows "r[k := f (r ! k)] = map (\<lambda>p. if ID p = i then f p else p) r"
proof (rule nth_equalityI)
  show "length (r[k := f (r ! k)]) = length (map (\<lambda>p. if ID p = i then f p else p) r)" by simp
next
  fix j assume "j < length (r[k := f (r ! k)])"
  then have j: "j < length r" by simp
  from s have k: "k < length r" "ID (r ! k) = i" using scan_0_Some by blast+
  show "r[k := f (r ! k)] ! j = map (\<lambda>p. if ID p = i then f p else p) r ! j"
  proof (cases "j = k")
    case True
    with k show ?thesis by simp
  next
    case False
    with d j k have "ID (r ! j) \<noteq> i" using distinct_ID_index [of r j k] by auto
    with False j show ?thesis by simp
  qed
qed

lemma mset_filter_other_IDs:
  "distinct (map ID r) \<Longrightarrow> p \<in> set r \<Longrightarrow>
     mset (filter (\<lambda>q. ID q \<noteq> ID p) r) = mset r - {#p#}"
proof (induction r)
  case Nil
  then show ?case by simp
next
  case (Cons x xs)
  show ?case
  proof (cases "x = p")
    case True
    with Cons.prems(1) have "ID p \<notin> ID ` set xs" by simp
    then have "filter (\<lambda>q. ID q \<noteq> ID p) xs = xs"
      unfolding filter_id_conv by (metis imageI)
    with True show ?thesis by simp
  next
    case False
    with Cons.prems have px: "p \<in> set xs" by simp
    with Cons.prems(1) have "ID x \<noteq> ID p" by (auto simp: image_iff)
    moreover from Cons.IH Cons.prems(1) px
    have "mset (filter (\<lambda>q. ID q \<noteq> ID p) xs) = mset xs - {#p#}" by simp
    ultimately show ?thesis using px by simp
  qed
qed

lemma Delete_Some:
  assumes d: "distinct (map ID r)" and s: "scan r i 0 = Some k"
  shows "Delete r i = (None, butlast (r[k := last r]))"
    and "mset (butlast (r[k := last r])) = mset (filter (\<lambda>q. ID q \<noteq> i) r)"
proof -
  show "Delete r i = (None, butlast (r[k := last r]))" using s by (rule Delete_eq)
  from s have k: "k < length r" "ID (r ! k) = i" using scan_0_Some by blast+
  then have "r ! k \<in> set r" by simp
  from mset_filter_other_IDs [OF d this] k(2) mset_swap_remove [OF k(1)]
  show "mset (butlast (r[k := last r])) = mset (filter (\<lambda>q. ID q \<noteq> i) r)" by simp
qed

lemma distinct_mset_subset:
  assumes "mset ys \<subseteq># mset xs" and "distinct xs"
  shows "distinct ys"
proof -
  have le: "count (mset ys) a \<le> count (mset xs) a" for a
    using assms(1) by (rule mset_subset_eq_count)
  have "count (mset xs) a \<le> 1" for a
    using assms(2) by (simp add: distinct_count_atmost_1)
  with le have one: "count (mset ys) a \<le> 1" for a by (meson le_trans)
  show ?thesis
    unfolding distinct_count_atmost_1
  proof (intro allI)
    fix a
    show "count (mset ys) a = (if a \<in> set ys then 1 else 0)"
    proof (cases "a \<in> set ys")
      case True
      then have "0 < count (mset ys) a" by (simp add: count_mset_0_iff)
      with one [of a] have "count (mset ys) a = 1" by linarith
      with True show ?thesis by simp
    next
      case False
      then show ?thesis by (simp add: count_mset_0_iff)
    qed
  qed
qed
lemma distinct_ID_mset_mono:
  assumes "mset r' \<subseteq># mset r" and "distinct (map ID r)"
  shows "distinct (map ID r')"
proof -
  have "mset (map ID r') \<subseteq># mset (map ID r)"
    using assms(1) by (simp add: image_mset_subseteq_mono)
  then show ?thesis using assms(2) by (rule distinct_mset_subset)
qed

lemma list_all_mset_mono:
  assumes "mset r' \<subseteq># mset r" and "list_all P r"
  shows "list_all P r'"
proof -
  have "set r' \<subseteq> set r" using assms(1) by (metis set_mset_mono set_mset_mset)
  with assms(2) show ?thesis by (auto simp: list_all_iff)
qed

lemma mem_step_inv:
  assumes inv: "repo_inv r" and a: "admissible r c"
  shows "repo_inv (snd (mem_step r c))"
proof (cases c)
  case (OpCreate req i now)
  with inv a show ?thesis
    by (simp add: repo_inv_def Create_def ToProduct_def timestamps_ok_def)
next
  case (OpCreateBulk ps)
  with inv a show ?thesis
    by (auto simp: repo_inv_def CreateBulk_def list_all_iff) (metis imageI)
next
  case (OpUpdate i req now)
  show ?thesis
  proof (cases "scan r i 0")
    case None
    with OpUpdate inv show ?thesis by (simp add: Update_def)
  next
    case (Some k)
    then have k: "k < length r" "ID (r ! k) = i" using scan_0_Some by blast+
    let ?q = "(r ! k)\<lparr>Name := ReqName req, Description := ReqDescription req,
                    Price := ReqPrice req, UpdatedAt := now\<rparr>"
    have "map ID (r[k := ?q]) = (map ID r)[k := ID (r ! k)]" by (simp add: map_update)
    also have "\<dots> = map ID r" using k(1) by (metis length_map list_update_id nth_map)
    finally have ids: "map ID (r[k := ?q]) = map ID r" .
    from a OpUpdate k have "CreatedAt (r ! k) \<le> now" by (auto simp: list_all_length)
    then have "timestamps_ok ?q" by (simp add: timestamps_ok_def)
    moreover from inv have "list_all timestamps_ok r" by (simp add: repo_inv_def)
    ultimately have "list_all timestamps_ok (r[k := ?q])"
      using k(1) by (simp add: list_all_length nth_list_update)
    with ids inv OpUpdate Some show ?thesis by (simp add: repo_inv_def Update_def)
  qed
next
  case (OpDelete i)
  show ?thesis
  proof (cases "scan r i 0")
    case None
    with OpDelete inv show ?thesis by (simp add: Delete_def)
  next
    case (Some k)
    then have k: "k < length r" using scan_0_Some by blast
    have "mset (butlast (r[k := last r])) \<subseteq># mset r"
      using mset_swap_remove [OF k] by simp
    with inv have "repo_inv (butlast (r[k := last r]))"
      unfolding repo_inv_def using distinct_ID_mset_mono list_all_mset_mono by blast
    with OpDelete Delete_eq [OF Some] show ?thesis by simp
  qed
next
  case OpDeleteAll
  then show ?thesis by (simp add: DeleteAll_def repo_inv_def)
qed (use inv in simp_all)

lemma mem_run_inv:
  "repo_inv r \<Longrightarrow> admissible_run r cs \<Longrightarrow> repo_inv (mem_run r cs)"
proof (induction cs arbitrary: r)
  case Nil
  then show ?case by simp
next
  case (Cons c cs)
  from Cons.prems have "repo_inv (snd (mem_step r c))" by (simp add: mem_step_inv)
  with Cons show ?case by simp
qed

text \<open>
  Claim C3, amended. Start from the empty in-memory backend and apply any sequence of
  calls in which every identifier drawn by \<^verbatim>\<open>ToProduct\<close> is not in the dataset, every
  batch given to \<^verbatim>\<open>CreateBulk\<close> has identifiers that are pairwise different and not in
  the dataset and products with \<open>created_at \<le> updated_at\<close>, and the clock reading of every
  \<^verbatim>\<open>Update\<close> is not earlier than the \<open>created_at\<close> of the product it updates. Then every
  product in the resulting dataset has \<open>created_at \<le> updated_at\<close>, and no two products at
  different positions share an identifier.
\<close>

theorem invariant_preserved:
  assumes "admissible_run NewProductMemoryRepository cs"
  shows "repo_inv (mem_run NewProductMemoryRepository cs)"
  using assms by (intro mem_run_inv) (simp_all add: repo_inv_def NewProductMemoryRepository_def)

theorem invariant_preserved_witness:
  "admissible_run NewProductMemoryRepository
     [OpCreate widget 1 100, OpCreateBulk [sample_b, sample_c], OpUpdate 1 widget_pro 500,
      OpGetByID 2, OpList 1 10, OpDelete 2, OpCount, OpGetAll]
   \<and> repo_inv (mem_run NewProductMemoryRepository
     [OpCreate widget 1 100, OpCreateBulk [sample_b, sample_c], OpUpdate 1 widget_pro 500,
      OpGetByID 2, OpList 1 10, OpDelete 2, OpCount, OpGetAll])"
proof -
  have h: "admissible_run NewProductMemoryRepository
     [OpCreate widget 1 100, OpCreateBulk [sample_b, sample_c], OpUpdate 1 widget_pro 500,
      OpGetByID 2, OpList 1 10, OpDelete 2, OpCount, OpGetAll]"
    by (simp add: NewProductMemoryRepository_def Create_def CreateBulk_def Update_def Delete_def
        ToProduct_def timestamps_ok_def sample_defs)
  from h invariant_preserved [OF h] show ?thesis by (rule conjI)
qed

text \<open>
  Without the condition on the batches the claim fails: the backend appends what it is
  given. A batch with the same identifier twice, or with a product whose \<open>updated_at\<close>
  precedes its \<open>created_at\<close>, is stored as it is.
\<close>

theorem invariant_counterexample:
  "\<not> distinct (map ID (mem_run NewProductMemoryRepository
        [OpCreateBulk [sample_a, sample_a\<lparr>Name := ''Awesome Tool''\<rparr>]]))
   \<and> \<not> list_all timestamps_ok (mem_run NewProductMemoryRepository
        [OpCreateBulk [sample_b\<lparr>UpdatedAt := 150\<rparr>]])"
  by (simp add: NewProductMemoryRepository_def CreateBulk_def timestamps_ok_def sample_defs)

section \<open>The random product generator\<close>

subsection \<open>Rounding to \<^verbatim>\<open>float64\<close>\<close>

lemma round_half_even_lt_half:
  assumes "x < of_int K + 1 / 2"
  shows "round_half_even x \<le> K"
proof -
  define n where "n = \<lfloor>x\<rfloor>"
  have n: "of_int n \<le> x" "x < of_int n + 1" unfolding n_def by linarith+
  show ?thesis
  proof (cases "x - of_int n < 1 / 2")
    case True
    then have "round_half_even x = n" by (simp add: round_half_even_def Let_def n_def)
    moreover from n(1) assms have "n \<le> K" by linarith
    ultimately show ?thesis by simp
  next
    case False
    then have "of_int n + 1 / 2 \<le> x" by simp
    with assms have "n < K" by linarith
    moreover have "round_half_even x \<le> n + 1"
      by (simp add: round_half_even_def Let_def n_def)
    ultimately show ?thesis by linarith
  qed
qed

lemma round_half_even_le: "x \<le> of_int K \<Longrightarrow> round_half_even x \<le> K"
  by (rule round_half_even_lt_half) simp

lemma round_half_even_ge:
  assumes "of_int K \<le> x"
  shows "K \<le> round_half_even x"
proof -
  have "K \<le> \<lfloor>x\<rfloor>" using assms by (simp add: le_floor_iff)
  moreover have "\<lfloor>x\<rfloor> \<le> round_half_even x" by (simp add: round_half_even_def Let_def)
  ultimately show ?thesis by simp
qed

lemma round_half_even_of_int: "round_half_even (of_int K) = K"
  using round_half_even_le [of "of_int K" K] round_half_even_ge [of K "of_int K"] by simp

lemma ulp_pos: "0 < (2 :: real) powr y"
  by simp

lemma round_float64_le:
  assumes "x \<noteq> 0" and "x \<le> of_int K * 2 powr of_int (ulp_exponent x)"
  shows "round_float64 x \<le> of_int K * 2 powr of_int (ulp_exponent x)"
proof -
  let ?u = "(2 :: real) powr of_int (ulp_exponent x)"
  have "x / ?u \<le> of_int K" using assms(2) by (simp add: pos_divide_le_eq)
  then have "round_half_even (x / ?u) \<le> K" by (rule round_half_even_le)
  then have "of_int (round_half_even (x / ?u)) * ?u \<le> of_int K * ?u"
    by (intro mult_right_mono) simp_all
  with assms(1) show ?thesis by (simp add: round_float64_def)
qed

lemma round_float64_le_half:
  assumes "x \<noteq> 0" and "x < (of_int K + 1 / 2) * 2 powr of_int (ulp_exponent x)"
  shows "round_float64 x \<le> of_int K * 2 powr of_int (ulp_exponent x)"
proof -
  let ?u = "(2 :: real) powr of_int (ulp_exponent x)"
  have "x / ?u < of_int K + 1 / 2" using assms(2) by (simp add: pos_divide_less_eq)
  then have "round_half_even (x / ?u) \<le> K" by (rule round_half_even_lt_half)
  then have "of_int (round_half_even (x / ?u)) * ?u \<le> of_int K * ?u"
    by (intro mult_right_mono) simp_all
  with assms(1) show ?thesis by (simp add: round_float64_def)
qed

lemma round_float64_ge:
  assumes "x \<noteq> 0" and "of_int K * 2 powr of_int (ulp_exponent x) \<le> x"
  shows "of_int K * 2 powr of_int (ulp_exponent x) \<le> round_float64 x"
proof -
  let ?u = "(2 :: real) powr of_int (ulp_exponent x)"
  have "of_int K \<le> x / ?u" using assms(2) by (simp add: pos_le_divide_eq)
  then have "K \<le> round_half_even (x / ?u)" by (rule round_half_even_ge)
  then have "of_int K * ?u \<le> of_int (round_half_even (x / ?u)) * ?u"
    by (intro mult_right_mono) simp_all
  with assms(1) show ?thesis by (simp add: round_float64_def)
qed

lemma round_float64_exact:
  assumes "x = of_int K * 2 powr of_int (ulp_exponent x)"
  shows "round_float64 x = x"
proof (cases "x = 0")
  case True
  then show ?thesis by (simp add: round_float64_def)
next
  case False
  from assms have "x \<le> of_int K * 2 powr of_int (ulp_exponent x)"
    and "of_int K * 2 powr of_int (ulp_exponent x) \<le> x" by simp_all
  from round_float64_le [OF False this(1)] round_float64_ge [OF False this(2)] assms
  show ?thesis by simp
qed

lemma floor_log2_eq:
  assumes "2 powr of_int e \<le> x" and "x < 2 powr of_int (e + 1)"
  shows "\<lfloor>log 2 x\<rfloor> = e"
proof -
  have "0 < x" using assms(1) ulp_pos [of "of_int e"] by linarith
  then show ?thesis using assms by (simp add: floor_log_eq_powr_iff)
qed

lemma ulp_exponent_eq:
  assumes "2 powr of_int e \<le> \<bar>x\<bar>" and "\<bar>x\<bar> < 2 powr of_int (e + 1)" and "- 1022 \<le> e"
  shows "ulp_exponent x = e - 52"
  using floor_log2_eq [OF assms(1,2)] assms(3) by (simp add: ulp_exponent_def)

lemma ulp_exponent_le:
  assumes "x \<noteq> 0" and "\<bar>x\<bar> < 2 powr of_int b" and "- 1021 \<le> b"
  shows "ulp_exponent x \<le> b - 53"
proof -
  have "0 < \<bar>x\<bar>" using assms(1) by simp
  then have "log 2 \<bar>x\<bar> < of_int b" using assms(2) by (simp add: log_less_iff)
  then have "\<lfloor>log 2 \<bar>x\<bar>\<rfloor> < b" by (simp add: floor_less_iff)
  with assms(3) show ?thesis by (simp add: ulp_exponent_def)
qed

lemma powr_multiple:
  assumes "q \<le> b"
  shows "(2 :: real) powr of_int b = of_int (2 ^ nat (b - q)) * 2 powr of_int q"
proof -
  have "(2 :: real) powr of_int b = 2 powr (of_int (b - q) + of_int q)" by simp
  also have "\<dots> = 2 powr of_int (b - q) * 2 powr of_int q" by (rule powr_add)
  also have "(2 :: real) powr of_int (b - q) = 2 ^ nat (b - q)"
    using assms powr_int [of "2 :: real" "b - q"] by simp
  finally show ?thesis by simp
qed

lemma int_multiple:
  assumes "q \<le> 0"
  shows "(of_int c :: real) = of_int (c * 2 ^ nat (- q)) * 2 powr of_int q"
proof -
  have "(1 :: real) = 2 powr of_int 0" by simp
  also have "\<dots> = of_int (2 ^ nat (0 - q)) * 2 powr of_int q"
    using assms by (rule powr_multiple)
  finally have "(1 :: real) = of_int (2 ^ nat (- q)) * 2 powr of_int q" by simp
  then have "(of_int c :: real) = of_int c * (of_int (2 ^ nat (- q)) * 2 powr of_int q)" by simp
  then show ?thesis by (simp add: mult.assoc)
qed

lemma round_float64_le_power:
  assumes "x \<noteq> 0" and "\<bar>x\<bar> < 2 powr of_int b" and "- 1021 \<le> b"
  shows "round_float64 x \<le> 2 powr of_int b"
proof -
  have q: "ulp_exponent x \<le> b" using ulp_exponent_le [OF assms] by simp
  have "x \<le> 2 powr of_int b" using assms(2) by simp
  then have "x \<le> of_int (2 ^ nat (b - ulp_exponent x)) * 2 powr of_int (ulp_exponent x)"
    using powr_multiple [OF q] by simp
  from round_float64_le [OF assms(1) this] powr_multiple [OF q] show ?thesis by simp
qed

lemma p43: "(2 :: real) powr of_int (- 43) = 1 / 2 ^ 43"
  using powr_int [of "2 :: real" "- 43"] by simp

lemma p53: "(2 :: real) powr of_int (- 53) = 1 / 2 ^ 53"
  using powr_int [of "2 :: real" "- 53"] by simp

lemma float64_below_one:
  assumes "is_float64 f" and "0 \<le> f" and "f < 1"
  shows "f \<le> 1 - 1 / 2 ^ 53"
proof (cases "f < 1 / 2")
  case True
  have "(1 :: real) / 2 ^ 53 \<le> 1 / 2 ^ 1" by (intro divide_left_mono power_increasing) simp_all
  with True show ?thesis by simp
next
  case False
  then have lo: "2 powr of_int (- 1) \<le> \<bar>f\<bar>"
    using powr_int [of "2 :: real" "- 1"] by simp
  have hi: "\<bar>f\<bar> < 2 powr of_int (- 1 + 1)" using assms(2,3) by simp
  have q: "ulp_exponent f = - 53" using ulp_exponent_eq [OF lo hi] by simp
  from False have nz: "f \<noteq> 0" by simp
  define K where "K = round_half_even (f / 2 powr of_int (ulp_exponent f))"
  from assms(1) have fx: "round_float64 f = f" unfolding is_float64_def by (rule conjunct1)
  have "round_float64 f = of_int K * 2 powr of_int (ulp_exponent f)"
    using nz by (simp add: round_float64_def K_def)
  also have "\<dots> = of_int K * (1 / 2 ^ 53)" by (simp only: q p53)
  finally have f: "f = of_int K * (1 / 2 ^ 53)" using fx by simp
  have pos: "(0 :: real) < 2 ^ 53" by simp
  from assms(3) have "of_int K * (1 / 2 ^ 53) < (1 :: real)" by (simp only: f [symmetric])
  then have "(of_int K :: real) < 2 ^ 53" using pos by (simp add: pos_divide_less_eq)
  then have "(of_int K :: real) < of_int (2 ^ 53)" by simp
  then have "K < 2 ^ 53" by (simp only: of_int_less_iff)
  then have "K \<le> 2 ^ 53 - 1" by simp
  then have "(of_int K :: real) \<le> of_int (2 ^ 53 - 1)" by (simp only: of_int_le_iff)
  then have "(of_int K :: real) \<le> 2 ^ 53 - 1" by simp
  then have "of_int K * (1 / 2 ^ 53) \<le> (2 ^ 53 - 1) * (1 / 2 ^ 53 :: real)"
    by (intro mult_right_mono) simp_all
  also have "(2 ^ 53 - 1) * (1 / 2 ^ 53 :: real) = 1 - 1 / 2 ^ 53" by (simp add: field_simps)
  finally show ?thesis by (simp only: f [symmetric])
qed

lemma p9: "(2 :: real) powr of_int 9 = 512"
  using powr_int [of "2 :: real" 9] by simp

lemma p10: "(2 :: real) powr of_int 10 = 1024"
  using powr_int [of "2 :: real" 10] by simp

lemma ulp_exponent_512:
  assumes "512 \<le> x" and "x < 1024"
  shows "ulp_exponent x = - 43"
proof -
  have "2 powr of_int 9 \<le> \<bar>x\<bar>" using assms(1) unfolding p9 by simp
  moreover have "\<bar>x\<bar> < 2 powr of_int (9 + 1)" using assms by (simp add: p10 del: of_int_add)
  ultimately show ?thesis using ulp_exponent_eq [of 9 x] by simp
qed

lemma round_float64_below_512:
  assumes "0 < x" and "x < 512"
  shows "round_float64 x \<le> 512"
proof -
  have "\<bar>x\<bar> < 2 powr of_int 9" using assms unfolding p9 by simp
  from round_float64_le_power [OF _ this] assms(1) show ?thesis unfolding p9 by simp
qed

lemma round_float64_nonneg:
  assumes "0 \<le> x"
  shows "0 \<le> round_float64 x"
proof (cases "x = 0")
  case True
  then show ?thesis by (simp add: round_float64_def)
next
  case False
  have "of_int 0 * 2 powr of_int (ulp_exponent x) \<le> x" using assms by simp
  from round_float64_ge [OF False this] show ?thesis by simp
qed

text \<open>The product \<^verbatim>\<open>rand.Float64()*990.0\<close>.\<close>

lemma product_bound:
  assumes "0 \<le> f" and "f \<le> 1 - 1 / 2 ^ 53"
  shows "round_float64 (f * 990) \<le> 990 - 1 / 2 ^ 43"
proof -
  let ?x = "f * 990"
  have x: "0 \<le> ?x" "?x \<le> 990 - 990 / 2 ^ 53" using assms by simp_all
  consider "?x = 0" | "0 < ?x" "?x < 512" | "512 \<le> ?x" using x(1) by linarith
  then show ?thesis
  proof cases
    case 1
    then show ?thesis by (simp add: round_float64_def)
  next
    case 2
    then have "round_float64 ?x \<le> 512" by (rule round_float64_below_512)
    then show ?thesis by simp
  next
    case 3
    have lt: "?x < 1024" using x(2) by simp
    have q: "ulp_exponent ?x = - 43" using 3 lt by (rule ulp_exponent_512)
    have nz: "?x \<noteq> 0" using 3 by simp
    have "?x < (of_int (990 * 2 ^ 43 - 1) + 1 / 2) * (1 / 2 ^ 43)"
      using x(2) by simp
    then have "?x < (of_int (990 * 2 ^ 43 - 1) + 1 / 2) * 2 powr of_int (ulp_exponent ?x)"
      by (simp only: q p43)
    from round_float64_le_half [OF nz this]
    have "round_float64 ?x \<le> of_int (990 * 2 ^ 43 - 1) * (1 / 2 ^ 43)" by (simp only: q p43)
    then show ?thesis by simp
  qed
qed

text \<open>The sum of \<^verbatim>\<open>10.0\<close> and the rounded product.\<close>

lemma sum_bounds:
  assumes "0 \<le> p" and "p \<le> 990 - 1 / 2 ^ 43"
  shows "10 \<le> round_float64 (10 + p)" and "round_float64 (10 + p) \<le> 1000 - 1 / 2 ^ 43"
proof -
  let ?y = "10 + p"
  have y: "10 \<le> ?y" "?y \<le> 1000 - 1 / 2 ^ 43" using assms by simp_all
  have nz: "?y \<noteq> 0" using y(1) by simp
  have lt: "?y < 1024" using y(2) by simp
  have "\<bar>?y\<bar> < 2 powr of_int 10" using y(1) lt unfolding p10 by simp
  from ulp_exponent_le [OF nz this] have q0: "ulp_exponent ?y \<le> 0" by simp
  have ten: "(10 :: real) = of_int (10 * 2 ^ nat (- ulp_exponent ?y)) * 2 powr of_int (ulp_exponent ?y)"
    using int_multiple [OF q0, of 10] by simp
  have "of_int (10 * 2 ^ nat (- ulp_exponent ?y)) * 2 powr of_int (ulp_exponent ?y) \<le> ?y"
    using y(1) ten by simp
  from round_float64_ge [OF nz this] ten show "10 \<le> round_float64 ?y" by simp
  show "round_float64 ?y \<le> 1000 - 1 / 2 ^ 43"
  proof (cases "?y < 512")
    case True
    with y(1) have "round_float64 ?y \<le> 512" by (intro round_float64_below_512) simp_all
    then show ?thesis by simp
  next
    case False
    then have ge: "512 \<le> ?y" by simp
    have q: "ulp_exponent ?y = - 43" using ge lt by (rule ulp_exponent_512)
    have "?y \<le> of_int (1000 * 2 ^ 43 - 1) * (1 / 2 ^ 43)" using y(2) by simp
    then have "?y \<le> of_int (1000 * 2 ^ 43 - 1) * 2 powr of_int (ulp_exponent ?y)"
      by (simp only: q p43)
    from round_float64_le [OF nz this]
    have "round_float64 ?y \<le> of_int (1000 * 2 ^ 43 - 1) * (1 / 2 ^ 43)" by (simp only: q p43)
    then show ?thesis by simp
  qed
qed

lemma price_bounds:
  assumes "is_float64 f" and "0 \<le> f" and "f < 1"
  shows "10 \<le> round_float64 (10 + round_float64 (f * 990))"
    and "round_float64 (10 + round_float64 (f * 990)) < 1000"
proof -
  have f: "f \<le> 1 - 1 / 2 ^ 53" using assms by (rule float64_below_one)
  have p: "0 \<le> round_float64 (f * 990)" using assms(2) by (intro round_float64_nonneg) simp
  have p': "round_float64 (f * 990) \<le> 990 - 1 / 2 ^ 43" using assms(2) f by (rule product_bound)
  show "10 \<le> round_float64 (10 + round_float64 (f * 990))" using p p' by (rule sum_bounds)
  have "round_float64 (10 + round_float64 (f * 990)) \<le> 1000 - 1 / 2 ^ 43"
    using p p' by (rule sum_bounds)
  then show "round_float64 (10 + round_float64 (f * 990)) < 1000" by simp
qed

lemma round_float64_exactI:
  assumes "ulp_exponent x = q" and "x = of_int K * 2 powr of_int q"
  shows "round_float64 x = x"
proof -
  have "x = of_int K * 2 powr of_int (ulp_exponent x)"
    unfolding assms(1) by (rule assms(2))
  then show ?thesis by (rule round_float64_exact)
qed

lemma round_float64_int:
  assumes "2 powr of_int e \<le> \<bar>of_int c :: real\<bar>" and "\<bar>of_int c :: real\<bar> < 2 powr of_int (e + 1)"
    and "0 \<le> e" and "e \<le> 52"
  shows "round_float64 (of_int c) = of_int c"
proof -
  have q: "ulp_exponent (of_int c) = e - 52" using assms(1,2,3) by (intro ulp_exponent_eq) simp_all
  have "e - 52 \<le> 0" using assms(4) by simp
  then have "(of_int c :: real) = of_int (c * 2 ^ nat (- (e - 52))) * 2 powr of_int (e - 52)"
    by (rule int_multiple)
  with q show ?thesis by (rule round_float64_exactI)
qed

lemma p8: "(2 :: real) powr of_int 8 = 256"
  using powr_int [of "2 :: real" 8] by simp

lemma round_float64_495: "round_float64 495 = 495"
proof -
  have "round_float64 (of_int 495) = of_int 495"
  proof (rule round_float64_int [of 8])
    show "2 powr of_int 8 \<le> \<bar>of_int 495 :: real\<bar>" unfolding p8 by simp
    show "\<bar>of_int 495 :: real\<bar> < 2 powr of_int (8 + 1)" using p9 by simp
  qed simp_all
  then show ?thesis by simp
qed

lemma round_float64_505: "round_float64 505 = 505"
proof -
  have "round_float64 (of_int 505) = of_int 505"
  proof (rule round_float64_int [of 8])
    show "2 powr of_int 8 \<le> \<bar>of_int 505 :: real\<bar>" unfolding p8 by simp
    show "\<bar>of_int 505 :: real\<bar> < 2 powr of_int (8 + 1)" using p9 by simp
  qed simp_all
  then show ?thesis by simp
qed

lemma is_float64_half: "is_float64 (1 / 2)"
proof -
  have lo: "2 powr of_int (- 1) \<le> \<bar>1 / 2 :: real\<bar>"
    using powr_int [of "2 :: real" "- 1"] by simp
  have hi: "\<bar>1 / 2 :: real\<bar> < 2 powr of_int (- 1 + 1)" by simp
  have q: "ulp_exponent (1 / 2) = - 53" using ulp_exponent_eq [OF lo hi] by simp
  have "(1 / 2 :: real) = of_int (2 ^ 52) * 2 powr of_int (- 53)"
    unfolding p53 by simp
  with q have "round_float64 (1 / 2) = 1 / 2" by (rule round_float64_exactI)
  moreover have "\<bar>1 / 2 :: real\<bar> < 2 ^ 1024"
  proof -
    have "(1 :: real) \<le> 2 ^ 1024" by (rule one_le_power) simp
    moreover have "\<bar>1 / 2 :: real\<bar> < 1" by simp
    ultimately show ?thesis by (rule less_le_trans [rotated])
  qed
  ultimately show ?thesis unfolding is_float64_def by (rule conjI)
qed

lemma ToLower_example: "ToLower ''Awesome Accessory'' = ''awesome accessory''"
  by code_simp

lemma GenerateRandomProduct_draw0:
  "GenerateRandomProduct draw0
     = \<lparr>RpID = 7, RpName = ''Awesome Accessory'',
        RpDescription = ''A awesome accessory designed for modern needs.'', RpPrice = 505\<rparr>"
proof -
  have "adjectives ! 0 @ '' '' @ productTypes ! 3 = ''Awesome Accessory''"
    by (simp add: adjectives_def productTypes_def)
  moreover have "round_float64 (10 + round_float64 (1 / 2 * 990)) = 505"
    by (simp add: round_float64_495 round_float64_505)
  ultimately show ?thesis
    using ToLower_example by (simp add: GenerateRandomProduct_def Let_def draw0_def)
qed

lemma round_half_even_gt_half:
  assumes "of_int K - 1 / 2 < x"
  shows "K \<le> round_half_even x"
proof -
  define n where "n = \<lfloor>x\<rfloor>"
  have n: "of_int n \<le> x" "x < of_int n + 1" unfolding n_def by linarith+
  have res: "n \<le> round_half_even x" by (simp add: round_half_even_def Let_def n_def)
  show ?thesis
  proof (cases "1 / 2 < x - of_int n")
    case True
    then have "round_half_even x = n + 1" by (simp add: round_half_even_def Let_def n_def)
    moreover from n(2) assms have "K \<le> n + 1" by linarith
    ultimately show ?thesis by simp
  next
    case False
    with assms have "K \<le> n" by linarith
    with res show ?thesis by simp
  qed
qed

lemma p1000: "round_float64 1000 = 1000"
proof -
  have "round_float64 (of_int 1000) = of_int 1000"
  proof (rule round_float64_int [of 9])
    show "2 powr of_int 9 \<le> \<bar>of_int 1000 :: real\<bar>" unfolding p9 by simp
    show "\<bar>of_int 1000 :: real\<bar> < 2 powr of_int (9 + 1)" using p10 by simp
  qed simp_all
  then show ?thesis by simp
qed

text \<open>
  The rounding is felt at the upper end: for the real number \<open>1 - 1 / 2 ^ 60\<close>, which is
  below 1 and is no \<^verbatim>\<open>float64\<close>, the same computation gives the price 1000.
\<close>

lemma price_of_a_real_draw:
  "round_float64 (10 + round_float64 ((1 - 1 / 2 ^ 60) * 990)) = 1000"
  and "\<not> is_float64 (1 - 1 / 2 ^ 60)"
proof -
  let ?x = "(1 - 1 / 2 ^ 60) * 990 :: real"
  have x: "512 \<le> ?x" "?x < 1024" "?x \<le> 990" "990 - 1 / 2 ^ 44 < ?x" by simp_all
  have q: "ulp_exponent ?x = - 43" using x(1,2) by (rule ulp_exponent_512)
  have nz: "?x \<noteq> 0" using x(1) by simp
  let ?u = "(2 :: real) powr of_int (ulp_exponent ?x)"
  have u: "?u = 1 / 2 ^ 43" by (simp only: q p43)
  have "?x / ?u \<le> of_int (990 * 2 ^ 43)" using x(3) unfolding u by simp
  then have le: "round_half_even (?x / ?u) \<le> 990 * 2 ^ 43" by (rule round_half_even_le)
  have "of_int (990 * 2 ^ 43) - 1 / 2 < ?x / ?u" using x(4) unfolding u by simp
  then have ge: "990 * 2 ^ 43 \<le> round_half_even (?x / ?u)" by (rule round_half_even_gt_half)
  from le ge have "round_half_even (?x / ?u) = 990 * 2 ^ 43" by simp
  then have "round_float64 ?x = of_int (990 * 2 ^ 43) * ?u" using nz by (simp add: round_float64_def)
  also have "\<dots> = 990" unfolding u by simp
  finally have "round_float64 ?x = 990" .
  then show "round_float64 (10 + round_float64 ?x) = 1000" by (simp add: p1000)
  show "\<not> is_float64 (1 - 1 / 2 ^ 60)"
  proof
    assume "is_float64 (1 - 1 / 2 ^ 60)"
    then have "(1 - 1 / 2 ^ 60 :: real) \<le> 1 - 1 / 2 ^ 53" by (rule float64_below_one) simp_all
    then show False by simp
  qed
qed

subsection \<open>The generated products\<close>

lemma fill_products_eq:
  "i + todo \<le> length ps \<Longrightarrow>
     fill_products src i todo ps
       = take i ps @ map (\<lambda>j. GenerateRandomProduct (src j)) [i..<i + todo] @ drop (i + todo) ps"
proof (induction todo arbitrary: i ps)
  case 0
  then show ?case by simp
next
  case (Suc todo)
  let ?g = "\<lambda>j. GenerateRandomProduct (src j)"
  let ?ps = "ps[i := ?g i]"
  from Suc.prems have i: "i < length ps" by simp
  have "fill_products src i (Suc todo) ps = fill_products src (Suc i) todo ?ps" by simp
  also have "\<dots> = take (Suc i) ?ps @ map ?g [Suc i..<Suc i + todo] @ drop (Suc i + todo) ?ps"
    using Suc.prems by (intro Suc.IH) simp
  also have "take (Suc i) ?ps = take i ps @ [?g i]"
    using i by (simp add: take_Suc_conv_app_nth)
  also have "drop (Suc i + todo) ?ps = drop (i + Suc todo) ps" by simp
  also have "(take i ps @ [?g i]) @ map ?g [Suc i..<Suc i + todo] @ drop (i + Suc todo) ps
      = take i ps @ map ?g (i # [Suc i..<Suc i + todo]) @ drop (i + Suc todo) ps"
    by simp
  also have "i # [Suc i..<Suc i + todo] = [i..<i + Suc todo]"
    by (simp add: upt_conv_Cons)
  finally show ?case .
qed

lemma GenerateRandomProducts_eq:
  assumes "0 \<le> sint cnt"
  shows "GenerateRandomProducts src cnt
           = Inr (map (\<lambda>j. GenerateRandomProduct (src j)) [0..<nat (sint cnt)])"
  using assms fill_products_eq [of 0 "nat (sint cnt)" "replicate (nat (sint cnt)) zero_RandomProduct" src]
  by (simp add: GenerateRandomProducts_def word_sless_alt)

lemma GenerateRandomProduct_props:
  assumes "valid_draw d"
  shows "RpID (GenerateRandomProduct d) = rand_uuid d"
    and "\<exists>a \<in> set adjectives. \<exists>t \<in> set productTypes.
           RpName (GenerateRandomProduct d) = a @ '' '' @ t"
    and "RpDescription (GenerateRandomProduct d)
           = ''A '' @ ToLower (RpName (GenerateRandomProduct d)) @ '' designed for modern needs.''"
    and "10 \<le> RpPrice (GenerateRandomProduct d)"
    and "RpPrice (GenerateRandomProduct d) < 1000"
proof -
  show "RpID (GenerateRandomProduct d) = rand_uuid d"
    by (simp add: GenerateRandomProduct_def Let_def)
  from assms have a: "adjectives ! rand_adj d \<in> set adjectives"
    and t: "productTypes ! rand_type d \<in> set productTypes"
    by (simp_all add: valid_draw_def)
  have "RpName (GenerateRandomProduct d) = adjectives ! rand_adj d @ '' '' @ productTypes ! rand_type d"
    by (simp add: GenerateRandomProduct_def Let_def)
  with a t show "\<exists>a \<in> set adjectives. \<exists>t \<in> set productTypes.
           RpName (GenerateRandomProduct d) = a @ '' '' @ t" by blast
  show "RpDescription (GenerateRandomProduct d)
           = ''A '' @ ToLower (RpName (GenerateRandomProduct d)) @ '' designed for modern needs.''"
    by (simp add: GenerateRandomProduct_def Let_def)
  from assms have f: "is_float64 (rand_float d)" "0 \<le> rand_float d" "rand_float d < 1"
    by (simp_all add: valid_draw_def)
  from price_bounds [OF f] show "10 \<le> RpPrice (GenerateRandomProduct d)"
    and "RpPrice (GenerateRandomProduct d) < 1000"
    by (simp_all add: GenerateRandomProduct_def Let_def)
qed

text \<open>
  Claim C9. Whatever the random source delivers within its contract, the product of
  \<^verbatim>\<open>GenerateRandomProduct\<close> has the identifier drawn for it, a name made of one word of
  \<open>adjectives\<close>, a space and one word of \<open>productTypes\<close>, the description \<open>A\<close>, space,
  the name in lower case, \<open>designed for modern needs.\<close>, and a price from 10 inclusive
  to 1000 exclusive, the price being computed in \<^verbatim>\<open>float64\<close> with its two roundings. For
  a count that is not negative, \<^verbatim>\<open>GenerateRandomProducts\<close> returns exactly that many
  records, the record at index \<open>i\<close> being the product of the call at index \<open>i\<close> with its
  own draws.
\<close>

theorem generator_output:
  "(valid_draw d \<longrightarrow>
      RpID (GenerateRandomProduct d) = rand_uuid d
      \<and> (\<exists>a \<in> set adjectives. \<exists>t \<in> set productTypes.
            RpName (GenerateRandomProduct d) = a @ '' '' @ t)
      \<and> RpDescription (GenerateRandomProduct d)
           = ''A '' @ ToLower (RpName (GenerateRandomProduct d)) @ '' designed for modern needs.''
      \<and> 10 \<le> RpPrice (GenerateRandomProduct d) \<and> RpPrice (GenerateRandomProduct d) < 1000)
   \<and> (0 \<le> sint cnt \<longrightarrow>
        (\<exists>ps. GenerateRandomProducts src cnt = Inr ps \<and> length ps = nat (sint cnt)
           \<and> (\<forall>i < length ps. ps ! i = GenerateRandomProduct (src i))))"
proof (intro conjI impI)
  assume "0 \<le> sint cnt"
  then have "GenerateRandomProducts src cnt
           = Inr (map (\<lambda>j. GenerateRandomProduct (src j)) [0..<nat (sint cnt)])"
    by (rule GenerateRandomProducts_eq)
  then show "\<exists>ps. GenerateRandomProducts src cnt = Inr ps \<and> length ps = nat (sint cnt)
           \<and> (\<forall>i < length ps. ps ! i = GenerateRandomProduct (src i))"
    by simp
next
  assume v: "valid_draw d"
  show "RpID (GenerateRandomProduct d) = rand_uuid d"
    using v by (rule GenerateRandomProduct_props)
  show "\<exists>a \<in> set adjectives. \<exists>t \<in> set productTypes.
            RpName (GenerateRandomProduct d) = a @ '' '' @ t"
    using v by (rule GenerateRandomProduct_props)
  show "RpDescription (GenerateRandomProduct d)
           = ''A '' @ ToLower (RpName (GenerateRandomProduct d)) @ '' designed for modern needs.''"
    using v by (rule GenerateRandomProduct_props)
  show "10 \<le> RpPrice (GenerateRandomProduct d)"
    using v by (rule GenerateRandomProduct_props)
  show "RpPrice (GenerateRandomProduct d) < 1000"
    using v by (rule GenerateRandomProduct_props)
qed

theorem generator_output_witness:
  "valid_draw draw0
   \<and> GenerateRandomProduct draw0
       = \<lparr>RpID = 7, RpName = ''Awesome Accessory'',
          RpDescription = ''A awesome accessory designed for modern needs.'', RpPrice = 505\<rparr>
   \<and> RpID (GenerateRandomProduct draw0) = rand_uuid draw0
   \<and> (\<exists>a \<in> set adjectives. \<exists>t \<in> set productTypes.
          RpName (GenerateRandomProduct draw0) = a @ '' '' @ t)
   \<and> RpDescription (GenerateRandomProduct draw0)
        = ''A '' @ ToLower (RpName (GenerateRandomProduct draw0)) @ '' designed for modern needs.''
   \<and> 10 \<le> RpPrice (GenerateRandomProduct draw0) \<and> RpPrice (GenerateRandomProduct draw0) < 1000
   \<and> 0 \<le> sint (2 :: goint)
   \<and> (\<exists>ps. GenerateRandomProducts src0 2 = Inr ps \<and> length ps = nat (sint (2 :: goint))
          \<and> (\<forall>i < length ps. ps ! i = GenerateRandomProduct (src0 i)))"
proof -
  have h1: "valid_draw draw0"
    using is_float64_half by (simp add: valid_draw_def draw0_def adjectives_def productTypes_def)
  have h2: "0 \<le> sint (2 :: goint)" by simp
  have e: "GenerateRandomProduct draw0
       = \<lparr>RpID = 7, RpName = ''Awesome Accessory'',
          RpDescription = ''A awesome accessory designed for modern needs.'', RpPrice = 505\<rparr>"
    by (rule GenerateRandomProduct_draw0)
  note t1 = generator_output [of draw0 2 src0, THEN conjunct1, THEN mp, OF h1]
  note t2 = generator_output [of draw0 2 src0, THEN conjunct2, THEN mp, OF h2]
  from h1 e t1 h2 t2 show ?thesis by (intro conjI) blast+
qed

section \<open>The two backends side by side\<close>

lemma ID_content: "ID p = fst (content p)"
  by (simp add: content_def)

lemma same_dataset_facts:
  assumes "same_dataset r t"
  shows "ID ` set r = ID ` set t" and "length r = length t" and "distinct (map ID t)"
    and "distinct (map ID r)" and "mset (map content r) = mset (map content t)"
proof -
  from assms have m: "mset (map content r) = mset (map content t)" and d: "distinct (map ID r)"
    by (simp_all add: same_dataset_def)
  show "mset (map content r) = mset (map content t)" by (rule m)
  show "distinct (map ID r)" by (rule d)
  have "length (map content r) = length (map content t)" using m by (rule mset_eq_length)
  then show "length r = length t" by simp
  have "map ID r = map fst (map content r)" "map ID t = map fst (map content t)"
    by (simp_all add: content_def)
  then have i: "mset (map ID r) = mset (map ID t)" using m by (metis mset_map)
  then have "set (map ID r) = set (map ID t)" by (rule mset_eq_setD)
  then show "ID ` set r = ID ` set t" by simp
  show "distinct (map ID t)" using i d by (metis mset_eq_imp_distinct_iff)
qed

lemma same_content:
  assumes sd: "same_dataset r t" and p: "p \<in> set r" and q: "q \<in> set t" and i: "ID p = ID q"
  shows "content p = content q"
proof -
  note f = same_dataset_facts [OF sd]
  have "set (map content r) = set (map content t)" using f(5) by (rule mset_eq_setD)
  then have "content ` set r = content ` set t" by simp
  moreover from q have "content q \<in> content ` set t" by (rule imageI)
  ultimately have "content q \<in> content ` set r" by simp
  then obtain p' where p': "p' \<in> set r" "content p' = content q" by (metis imageE)
  then have "ID p' = ID q" by (simp add: ID_content)
  with i have "p' = p" using same_ID_same_product [OF f(4) p'(1) p] by simp
  with p'(2) show ?thesis by simp
qed

lemma to_row_unchanged:
  assumes "stored_unchanged (Name p) (Price p)"
  shows "\<exists>row. to_row p = Some row \<and> content row = content p"
  using assms by (simp add: stored_unchanged_def to_row_def content_def)

lemma insert_row_fresh:
  assumes "ID p \<notin> ID ` set t" and "stored_unchanged (Name p) (Price p)"
  shows "\<exists>row. insert_row False t p = (None, t @ [row]) \<and> content row = content p"
proof -
  from to_row_unchanged [OF assms(2)] obtain row
    where row: "to_row p = Some row" "content row = content p" by blast
  then have "ID row = ID p" by (simp add: ID_content)
  with assms(1) row show ?thesis by (simp add: insert_row_def)
qed

lemma bulk_insert_fresh:
  "distinct (map ID ps) \<Longrightarrow>
   list_all (\<lambda>p. ID p \<notin> ID ` set work \<and> stored_unchanged (Name p) (Price p)) ps \<Longrightarrow>
     \<exists>rows. bulk_insert (\<lambda>k. False) k t work ps = (None, work @ rows)
        \<and> map content rows = map content ps"
proof (induction ps arbitrary: k work)
  case Nil
  then show ?case by simp
next
  case (Cons p ps)
  from Cons.prems have f: "ID p \<notin> ID ` set work" and u: "stored_unchanged (Name p) (Price p)"
    by simp_all
  from insert_row_fresh [OF f u] obtain row
    where row: "insert_row False work p = (None, work @ [row])" "content row = content p"
    by blast
  then have idr: "ID row = ID p" by (simp add: ID_content)
  from Cons.prems(1) have np: "ID p \<notin> ID ` set ps" by simp
  have "list_all (\<lambda>q. ID q \<notin> ID ` set (work @ [row]) \<and> stored_unchanged (Name q) (Price q)) ps"
    unfolding list_all_iff
  proof
    fix q assume q: "q \<in> set ps"
    with Cons.prems(2) have "ID q \<notin> ID ` set work" "stored_unchanged (Name q) (Price q)"
      by (simp_all add: list_all_iff)
    moreover from q np have "ID q \<noteq> ID p" by (metis imageI)
    ultimately show "ID q \<notin> ID ` set (work @ [row]) \<and> stored_unchanged (Name q) (Price q)"
      using idr by simp
  qed
  moreover have "distinct (map ID ps)" using Cons.prems by simp
  ultimately obtain rows
    where rows: "bulk_insert (\<lambda>k. False) (Suc k) t (work @ [row]) ps = (None, (work @ [row]) @ rows)"
      "map content rows = map content ps"
    using Cons.IH [of "work @ [row]" "Suc k"] by blast
  have "bulk_insert (\<lambda>k. False) k t work (p # ps) = (None, work @ (row # rows))"
    using row(1) rows(1) by simp
  moreover have "map content (row # rows) = map content (p # ps)"
    using row(2) rows(2) by simp
  ultimately show ?case by blast
qed

lemma DB_CreateBulk_fresh:
  assumes "distinct (map ID ps)"
    and "list_all (\<lambda>p. ID p \<notin> ID ` set t \<and> stored_unchanged (Name p) (Price p)) ps"
  shows "\<exists>rows. DB_CreateBulk no_fault t ps = (None, t @ rows)
           \<and> map content rows = map content ps"
proof -
  from bulk_insert_fresh [OF assms, of 0 t] obtain rows
    where "bulk_insert (\<lambda>k. False) 0 t t ps = (None, t @ rows)"
      and "map content rows = map content ps" by blast
  then show ?thesis
    by (simp add: DB_CreateBulk_def no_fault_def BeginTxx_def Commit_def)
qed

lemma find_distinct_ID:
  "distinct (map ID t) \<Longrightarrow> p \<in> set t \<Longrightarrow> find (\<lambda>q. ID q = ID p) t = Some p"
  by (induction t) (auto simp: image_iff)

lemma find_absent_ID: "i \<notin> ID ` set t \<Longrightarrow> find (\<lambda>q. ID q = i) t = None"
  by (auto simp: find_None_iff)

lemma GetByID_agree:
  assumes "same_dataset r t"
  shows "agree (answer OneProduct (GetByID r i)) (answer OneProduct (DB_GetByID False t i))"
proof (cases "i \<in> ID ` set r")
  case True
  note f = same_dataset_facts [OF assms]
  from True obtain p where p: "p \<in> set r" "ID p = i" by auto
  from True f(1) obtain q where q: "q \<in> set t" "ID q = i" by auto
  have "GetByID r i = Inr p" using GetByID_distinct [OF f(4) p(1)] p(2) by simp
  moreover have "find (\<lambda>x. ID x = i) t = Some q" using find_distinct_ID [OF f(3) q(1)] q(2) by simp
  moreover have "content p = content q" using assms p(1) q(1) by (rule same_content) (simp add: p q)
  ultimately show ?thesis by (simp add: DB_GetByID_def)
next
  case False
  then have "GetByID r i = Inl NotFound" by (simp add: GetByID_NotFound)
  moreover from False same_dataset_facts(1) [OF assms]
  have "find (\<lambda>q. ID q = i) t = None" by (intro find_absent_ID) simp
  ultimately show ?thesis by (simp add: DB_GetByID_def)
qed

lemma List_agree:
  assumes sd: "same_dataset r t"
    and n: "length r < 2 ^ 62" and p: "1 \<le> sint page" and z: "0 \<le> sint pageSize"
    and m: "(sint page - 1) * sint pageSize < 2 ^ 63"
  shows "agree (answer Page (List r page pageSize))
           (answer Page (DB_List False tie t page pageSize))"
proof -
  let ?S = "(sint page - 1) * sint pageSize"
  have L: "List r page pageSize = Inr (take (nat (sint pageSize)) (drop (nat ?S) r))"
    using n p z m by (rule List_in_range)
  have D: "DB_List False tie t page pageSize
      = Inr (take (nat (sint pageSize)) (drop (nat ?S) (order_by_created_at_desc tie t)))"
    using p z m by (rule DB_List_in_range)
  have "length (order_by_created_at_desc tie t) = length r"
    using same_dataset_facts(2) [OF sd] by (simp add: order_by_created_at_desc_def)
  then show ?thesis unfolding L D by simp
qed

lemma Update_agree:
  assumes sd: "same_dataset r t" and i: "i \<in> ID ` set r"
    and u: "stored_unchanged (ReqName req) (ReqPrice req)"
  shows "fst (Update r i req now) = None" and "fst (DB_Update False t i req now) = None"
    and "same_dataset (snd (Update r i req now)) (snd (DB_Update False t i req now))"
proof -
  define f where "f = (\<lambda>p :: Product. p\<lparr>Name := ReqName req, Description := ReqDescription req,
                   Price := ReqPrice req, UpdatedAt := now\<rparr>)"
  define g where "g = (\<lambda>p. if ID p = i then f p else p)"
  define f' where "f' = (\<lambda>p :: Product. p\<lparr>Name := ReqName req,
                   Description := ReqDescription req, Price := ReqPrice req,
                   UpdatedAt := timestamptz now\<rparr>)"
  define g' where "g' = (\<lambda>p. if ID p = i then f' p else p)"
  define h where "h = (\<lambda>c :: uuid \<times> string \<times> string \<times> real.
      if fst c = i then (fst c, ReqName req, ReqDescription req, ReqPrice req) else c)"
  have cg: "content (g p) = h (content p)" for p by (simp add: g_def f_def h_def content_def)
  have cg': "content (g' p) = h (content p)" for p by (simp add: g'_def f'_def h_def content_def)
  have idg: "ID (g p) = ID p" for p by (simp add: g_def f_def)
  note F = same_dataset_facts [OF sd]
  from i obtain k where k: "scan r i 0 = Some k" using scan_exists by blast
  have "r[k := f (r ! k)] = map g r"
    unfolding g_def using F(4) k by (rule Update_eq_map)
  then have up: "Update r i req now = (None, map g r)"
    using k by (simp add: Update_def f_def)
  have d: "DB_Update False t i req now = (None, map g' t)"
    using u by (simp add: DB_Update_def stored_unchanged_def g'_def f'_def)
  show "fst (Update r i req now) = None" using up by simp
  show "fst (DB_Update False t i req now) = None" using d by simp
  have "map content (map g r) = map h (map content r)" by (simp add: cg)
  moreover have "map content (map g' t) = map h (map content t)" by (simp add: cg')
  ultimately have m: "mset (map content (map g r)) = mset (map content (map g' t))"
    using F(5) by (metis mset_map)
  have "map ID (map g r) = map ID r" by (simp add: idg)
  then have "distinct (map ID (map g r))" using F(4) by (simp only:)
  with m have "same_dataset (map g r) (map g' t)" unfolding same_dataset_def by (rule conjI)
  then show "same_dataset (snd (Update r i req now)) (snd (DB_Update False t i req now))"
    by (simp only: up d snd_conv)
qed

lemma content_filter_ID:
  "map content (filter (\<lambda>q. ID q \<noteq> i) xs) = filter (\<lambda>c. fst c \<noteq> i) (map content xs)"
  by (induction xs) (simp_all add: ID_content)

lemma Delete_agree:
  assumes sd: "same_dataset r t"
  shows "agree (status (fst (Delete r i))) (status (fst (DB_Delete False t i)))"
    and "same_dataset (snd (Delete r i)) (snd (DB_Delete False t i))"
proof -
  note f = same_dataset_facts [OF sd]
  let ?t' = "filter (\<lambda>q. ID q \<noteq> i) t"
  have both: "agree (status (fst (Delete r i))) (status (fst (DB_Delete False t i)))
      \<and> same_dataset (snd (Delete r i)) (snd (DB_Delete False t i))"
  proof (cases "scan r i 0")
    case None
    then have "i \<notin> ID ` set r" by (simp add: scan_None)
    with f(1) have "i \<notin> ID ` set t" by simp
    then have "?t' = t" unfolding filter_id_conv by (metis imageI)
    with None sd show ?thesis by (simp add: Delete_def DB_Delete_def)
  next
    case (Some k)
    note ds = Delete_Some [OF f(4) Some]
    have k: "k < length r" "ID (r ! k) = i" using Some scan_0_Some by blast+
    then have "i \<in> ID ` set r" by (metis imageI nth_mem)
    with f(1) obtain q where q: "q \<in> set t" "ID q = i" by auto
    then have "length ?t' < length t"
      using length_filter_less [of q t "\<lambda>q. ID q \<noteq> i"] by simp
    then have db: "DB_Delete False t i = (None, ?t')" by (simp add: DB_Delete_def Let_def)
    have "mset (map content (butlast (r[k := last r])))
        = mset (map content (filter (\<lambda>q. ID q \<noteq> i) r))"
      using ds(2) by (metis mset_map)
    also have "\<dots> = filter_mset (\<lambda>c. fst c \<noteq> i) (mset (map content r))"
      by (simp only: content_filter_ID mset_filter)
    also have "\<dots> = filter_mset (\<lambda>c. fst c \<noteq> i) (mset (map content t))"
      by (simp only: f(5))
    also have "\<dots> = mset (map content ?t')"
      by (simp only: content_filter_ID mset_filter)
    finally have m: "mset (map content (butlast (r[k := last r]))) = mset (map content ?t')" .
    have "mset (butlast (r[k := last r])) \<subseteq># mset r"
      using mset_swap_remove [OF k(1)] by simp
    then have "distinct (map ID (butlast (r[k := last r])))"
      using f(4) by (rule distinct_ID_mset_mono)
    with m show ?thesis unfolding ds(1) db by (simp add: same_dataset_def)
  qed
  then show "agree (status (fst (Delete r i))) (status (fst (DB_Delete False t i)))"
    and "same_dataset (snd (Delete r i)) (snd (DB_Delete False t i))" by simp_all
qed

lemma step_agree:
  assumes sd: "same_dataset r t" and c: "comparable r c"
  shows "agree (fst (mem_step r c)) (fst (db_step tie t c))
         \<and> same_dataset (snd (mem_step r c)) (snd (db_step tie t c))"
proof (cases c)
  case (OpCreate req i now)
  note f = same_dataset_facts [OF sd]
  let ?p = "ToProduct req i now"
  have idp: "ID ?p = i" "Name ?p = ReqName req" "Price ?p = ReqPrice req"
    by (simp_all add: ToProduct_def)
  from c OpCreate f(1) have "ID ?p \<notin> ID ` set t" and "stored_unchanged (Name ?p) (Price ?p)"
    by (simp_all add: idp)
  from insert_row_fresh [OF this] obtain row
    where row: "insert_row False t ?p = (None, t @ [row])" "content row = content ?p" by blast
  have "distinct (map ID (r @ [?p]))" using c OpCreate f(4) by (simp add: idp)
  with row f(5) OpCreate show ?thesis
    by (simp add: Create_def DB_Create_def same_dataset_def)
next
  case (OpCreateBulk ps)
  note f = same_dataset_facts [OF sd]
  from c OpCreateBulk have d: "distinct (map ID ps)"
    and fr: "list_all (\<lambda>p. ID p \<notin> ID ` set r \<and> stored_unchanged (Name p) (Price p)) ps"
    by simp_all
  from fr f(1) have "list_all (\<lambda>p. ID p \<notin> ID ` set t \<and> stored_unchanged (Name p) (Price p)) ps"
    by simp
  from DB_CreateBulk_fresh [OF d this] obtain rows
    where rows: "DB_CreateBulk no_fault t ps = (None, t @ rows)"
      "map content rows = map content ps" by blast
  have "\<forall>p \<in> set ps. ID p \<notin> ID ` set r" using fr by (simp add: list_all_iff)
  then have "distinct (map ID (r @ ps))"
    using d f(4) by auto (metis imageI)
  with rows f(5) OpCreateBulk show ?thesis
    by (simp add: CreateBulk_def same_dataset_def)
next
  case (OpGetByID i)
  with sd GetByID_agree [OF sd, of i] show ?thesis by simp
next
  case (OpList page pageSize)
  with c sd List_agree [OF sd, of page pageSize tie] show ?thesis by simp
next
  case OpGetAll
  have "mset (map content (order_by_created_at_desc tie t)) = mset (map content r)"
    using same_dataset_facts(5) [OF sd] by (simp add: order_by_created_at_desc_def)
  with OpGetAll sd show ?thesis by (simp add: GetAll_def DB_GetAll_def)
next
  case (OpUpdate i req now)
  with c have "i \<in> ID ` set r" and "stored_unchanged (ReqName req) (ReqPrice req)" by simp_all
  from Update_agree [OF sd this, of now] OpUpdate show ?thesis
    by (simp add: split_beta)
next
  case (OpDelete i)
  with Delete_agree [OF sd, of i] show ?thesis by (simp add: split_beta)
next
  case OpDeleteAll
  then show ?thesis by (simp add: DeleteAll_def DB_DeleteAll_def same_dataset_def)
next
  case OpCount
  with sd same_dataset_facts(2) [OF sd] show ?thesis
    by (simp add: Count_def DB_Count_def len_def)
qed

lemma decimal_examples:
  "decimal_10_2 (999 / 100) = Some (999 / 100)"
  "decimal_10_2 (1999 / 100) = Some (1999 / 100)"
  "decimal_10_2 10 = Some 10"
  "decimal_10_2 20 = Some 20"
  "decimal_10_2 30 = Some 30"
  "decimal_10_2 (9999 / 1000) = Some 10"
  "decimal_10_2 1000000000 = None"
proof -
  show "decimal_10_2 (999 / 100) = Some (999 / 100)" using decimal_10_2_cents [of 999] by simp
  show "decimal_10_2 (1999 / 100) = Some (1999 / 100)" using decimal_10_2_cents [of 1999] by simp
  show "decimal_10_2 10 = Some 10" using decimal_10_2_cents [of 1000] by simp
  show "decimal_10_2 20 = Some 20" using decimal_10_2_cents [of 2000] by simp
  show "decimal_10_2 30 = Some 30" using decimal_10_2_cents [of 3000] by simp
  have "round_half_away (9999 / 1000 * 100) = 1000"
  proof -
    have "\<lfloor>9999 / 1000 * 100 + 1 / 2 :: real\<rfloor> = 1000" by linarith
    then show ?thesis by (simp add: round_half_away_def)
  qed
  then show "decimal_10_2 (9999 / 1000) = Some 10" by (simp add: decimal_10_2_def Let_def)
  have "round_half_away (1000000000 * 100) = 1000000000 * 100"
    using round_half_away_of_int [of "1000000000 * 100"] by simp
  then show "decimal_10_2 1000000000 = None" by (simp add: decimal_10_2_def Let_def)
qed

lemmas mem_eval = NewProductMemoryRepository_def Create_def CreateBulk_def Update_def Delete_def
  DeleteAll_def GetAll_def Count_def ToProduct_def List_def page_bounds_def len_def
  make_slice_def slice_expr_def copy_def word_sle_eq word_sless_alt

lemmas db_eval = DB_Create_def DB_CreateBulk_def DB_GetByID_def DB_List_def DB_GetAll_def
  DB_Update_def DB_Delete_def DB_DeleteAll_def DB_Count_def insert_row_def to_row_def
  varchar_255_def timestamptz_def decimal_examples BeginTxx_def Commit_def Rollback_def
  no_fault_def order_by_created_at_desc_def ToProduct_def len_def word_sle_eq word_sless_alt




end
